theory Spec2Isabelle
  imports Main "HOL-Library.Multiset"
begin

section \<open>Multi-key quicksort of sort tuples (mk_qsort_tuple.c)\<close>

text \<open>
  A shallow embedding of \<^verbatim>\<open>src/backend/utils/sort/mk_qsort_tuple.c\<close>. The tuple array is a
  list; a call on the sub-array \<^verbatim>\<open>x + a\<close> of length \<^verbatim>\<open>k\<close> is a call on the slice
  \<open>take k (drop a x)\<close>, whose result is written back in place. The C \<^verbatim>\<open>int\<close> index
  variables are integers (array lengths are assumed to fit an \<^verbatim>\<open>int\<close>); key depths and
  the key count, which are never negative, are natural numbers. Comparator results are
  integers of which only the sign is read.
\<close>

subsection \<open>Data model\<close>

text \<open>
  \<^verbatim>\<open>SortTuple\<close>: the payload pointer \<^verbatim>\<open>tuple\<close>, the stored leading key \<^verbatim>\<open>datum1\<close> (possibly
  abbreviated) and its null flag. The datum type and the payload type are parameters.
\<close>

record ('d, 'p) SortTuple =
  tuple :: 'p
  datum1 :: 'd
  isnull1 :: bool

text \<open>
  \<^verbatim>\<open>SortSupportData\<close> is declared outside this file. The file itself reads one field of it,
  whether \<^verbatim>\<open>abbrev_converter\<close> is set; everything else is read only by the comparator
  primitives and lives in the record's extension.
\<close>

record SortSupportData =
  abbrev_converter :: bool

datatype MkqsCompFuncType =
  MKQS_COMP_FUNC_GENERIC | MKQS_COMP_FUNC_UNSIGNED | MKQS_COMP_FUNC_SIGNED | MKQS_COMP_FUNC_INT32

text \<open>
  The part of \<^verbatim>\<open>Tuplesortstate\<close> (its \<^verbatim>\<open>base\<close>) that the file reads, followed by the
  functions the file calls but does not define (\<^verbatim>\<open>sortsupport.h\<close>, \<^verbatim>\<open>tuplesort.c\<close>); these
  are parameters of the model.

  \<^item> \<open>mkqsGetDatumFunc t1 t2 depth\<close> returns the \<open>(datum, isNull)\<close> pair of each tuple at
    \<open>depth\<close>; with \<open>t2 = None\<close> (a \<^verbatim>\<open>NULL\<close> second tuple) only the first pair is written.
  \<^item> \<open>mkqsHandleDupFunc\<close>, when set, receives the slice \<^verbatim>\<open>x + dist\<close> of \<^verbatim>\<open>tupCount\<close> tuples
    and the null flag; it returns the slice as it left it and the error it raised, if any.
\<close>

record ('d, 'p, 'k, 'e) Tuplesortstate =
  nKeys :: nat
  sortKeys :: "'k SortSupportData_scheme list"
  mkqsCompFuncType :: MkqsCompFuncType
  mkqsGetDatumFunc ::
    "('d, 'p) SortTuple \<Rightarrow> ('d, 'p) SortTuple option \<Rightarrow> nat \<Rightarrow> ('d \<times> bool) \<times> ('d \<times> bool)"
  mkqsHandleDupFunc ::
    "(('d, 'p) SortTuple list \<Rightarrow> bool \<Rightarrow> ('d, 'p) SortTuple list \<times> 'e option) option"
  ApplySortComparator :: "'d \<Rightarrow> bool \<Rightarrow> 'd \<Rightarrow> bool \<Rightarrow> 'k SortSupportData_scheme \<Rightarrow> int"
  ApplyUnsignedSortComparator :: "'d \<Rightarrow> bool \<Rightarrow> 'd \<Rightarrow> bool \<Rightarrow> 'k SortSupportData_scheme \<Rightarrow> int"
  ApplySignedSortComparator :: "'d \<Rightarrow> bool \<Rightarrow> 'd \<Rightarrow> bool \<Rightarrow> 'k SortSupportData_scheme \<Rightarrow> int"
  ApplyInt32SortComparator :: "'d \<Rightarrow> bool \<Rightarrow> 'd \<Rightarrow> bool \<Rightarrow> 'k SortSupportData_scheme \<Rightarrow> int"
  ApplySortAbbrevFullComparator :: "'d \<Rightarrow> bool \<Rightarrow> 'd \<Rightarrow> bool \<Rightarrow> 'k SortSupportData_scheme \<Rightarrow> int"
  qsort_tuple_unsigned_compare :: "('d, 'p) SortTuple \<Rightarrow> ('d, 'p) SortTuple \<Rightarrow> int"
  qsort_tuple_signed_compare :: "('d, 'p) SortTuple \<Rightarrow> ('d, 'p) SortTuple \<Rightarrow> int"
  qsort_tuple_int32_compare :: "('d, 'p) SortTuple \<Rightarrow> ('d, 'p) SortTuple \<Rightarrow> int"

subsection \<open>Swaps\<close>

text \<open>\<^verbatim>\<open>mkqs_swap(a, b, x)\<close>: nothing when \<open>a = b\<close>, else the two cells are exchanged.\<close>

definition mkqs_swap :: "int \<Rightarrow> int \<Rightarrow> 'a list \<Rightarrow> 'a list" where
  "mkqs_swap a b x =
     (if a = b then x
      else let t = x ! nat a in (x[nat a := x ! nat b])[nat b := t])"

text \<open>\<^verbatim>\<open>mkqs_vec_swap(a, b, size, x)\<close>: \<^verbatim>\<open>while (size-- > 0) { swap; a++; b++; }\<close>.\<close>

function mkqs_vec_swap :: "int \<Rightarrow> int \<Rightarrow> int \<Rightarrow> 'a list \<Rightarrow> 'a list" where
  "mkqs_vec_swap a b sz x =
     (if sz > 0 then mkqs_vec_swap (a + 1) (b + 1) (sz - 1) (mkqs_swap a b x) else x)"
  by pat_completeness auto
termination
  by (relation "measure (\<lambda>(a, b, sz, x). nat sz)") auto

declare mkqs_vec_swap.simps [simp del]

subsection \<open>Comparators\<close>

definition check_datum_null ::
  "('d, 'p) SortTuple \<Rightarrow> nat \<Rightarrow> ('d, 'p, 'k, 'e) Tuplesortstate \<Rightarrow> bool" where
  "check_datum_null x depth state =
     (if depth = 0 then isnull1 x
      else snd (fst (mkqsGetDatumFunc state x None depth)))"

definition mkqs_compare_datum_tiebreak ::
  "('d, 'p) SortTuple \<Rightarrow> ('d, 'p) SortTuple \<Rightarrow> nat \<Rightarrow> ('d, 'p, 'k, 'e) Tuplesortstate \<Rightarrow> int" where
  "mkqs_compare_datum_tiebreak tuple1 tuple2 depth state =
     (let sortKey = sortKeys state ! depth;
          ((datum1', isNull1), (datum2', isNull2)) = mkqsGetDatumFunc state tuple1 (Some tuple2) depth
      in if abbrev_converter sortKey \<and> depth = 0
         then ApplySortAbbrevFullComparator state datum1' isNull1 datum2' isNull2 sortKey
         else ApplySortComparator state datum1' isNull1 datum2' isNull2 sortKey)"

text \<open>The \<^verbatim>\<open>SIGNED\<close> branch is compiled when \<^verbatim>\<open>SIZEOF_DATUM >= 8\<close>, which is assumed.\<close>

definition mkqs_compare_datum_by_shortcut ::
  "('d, 'p) SortTuple \<Rightarrow> ('d, 'p) SortTuple \<Rightarrow> ('d, 'p, 'k, 'e) Tuplesortstate \<Rightarrow> int" where
  "mkqs_compare_datum_by_shortcut tuple1 tuple2 state =
     (let compFuncType = mkqsCompFuncType state;
          sortKey = sortKeys state ! 0
      in if compFuncType = MKQS_COMP_FUNC_UNSIGNED
         then ApplyUnsignedSortComparator state
                (datum1 tuple1) (isnull1 tuple1) (datum1 tuple2) (isnull1 tuple2) sortKey
         else if compFuncType = MKQS_COMP_FUNC_SIGNED
         then ApplySignedSortComparator state
                (datum1 tuple1) (isnull1 tuple1) (datum1 tuple2) (isnull1 tuple2) sortKey
         else if compFuncType = MKQS_COMP_FUNC_INT32
         then ApplyInt32SortComparator state
                (datum1 tuple1) (isnull1 tuple1) (datum1 tuple2) (isnull1 tuple2) sortKey
         else ApplySortComparator state
                (datum1 tuple1) (isnull1 tuple1) (datum1 tuple2) (isnull1 tuple2) sortKey)"

definition mkqs_compare_datum ::
  "('d, 'p) SortTuple \<Rightarrow> ('d, 'p) SortTuple \<Rightarrow> nat \<Rightarrow> ('d, 'p, 'k, 'e) Tuplesortstate \<Rightarrow> int" where
  "mkqs_compare_datum tuple1 tuple2 depth state =
     (if depth = 0
      then (let ret = mkqs_compare_datum_by_shortcut tuple1 tuple2 state
            in if ret \<noteq> 0 then ret
               else if \<not> abbrev_converter (sortKeys state ! 0) then ret
               else mkqs_compare_datum_tiebreak tuple1 tuple2 depth state)
      else mkqs_compare_datum_tiebreak tuple1 tuple2 depth state)"

definition get_median_from_three ::
  "int \<Rightarrow> int \<Rightarrow> int \<Rightarrow> ('d, 'p) SortTuple list \<Rightarrow> nat \<Rightarrow> ('d, 'p, 'k, 'e) Tuplesortstate \<Rightarrow> int" where
  "get_median_from_three a b c x depth state =
     (if mkqs_compare_datum (x ! nat a) (x ! nat b) depth state < 0
      then (if mkqs_compare_datum (x ! nat b) (x ! nat c) depth state < 0 then b
            else (if mkqs_compare_datum (x ! nat a) (x ! nat c) depth state < 0 then c else a))
      else (if mkqs_compare_datum (x ! nat b) (x ! nat c) depth state > 0 then b
            else (if mkqs_compare_datum (x ! nat a) (x ! nat c) depth state < 0 then a else c)))"

text \<open>
  The \<^verbatim>\<open>while (depth < nKeys)\<close> loop of \<^verbatim>\<open>mkqs_compare_tuple_by_range_tiebreak\<close>; the key
  pointer \<^verbatim>\<open>sortKey\<close> moves with \<^verbatim>\<open>depth\<close>, so it is \<open>sortKeys ! depth\<close> throughout.
\<close>

function mkqs_range_tiebreak_loop ::
  "('d, 'p) SortTuple \<Rightarrow> ('d, 'p) SortTuple \<Rightarrow> nat \<Rightarrow> ('d, 'p, 'k, 'e) Tuplesortstate \<Rightarrow> int" where
  "mkqs_range_tiebreak_loop tuple1 tuple2 depth state =
     (if depth < nKeys state
      then (let ((datum1', isNull1), (datum2', isNull2)) =
                   mkqsGetDatumFunc state tuple1 (Some tuple2) depth;
                ret = ApplySortComparator state datum1' isNull1 datum2' isNull2 (sortKeys state ! depth)
            in if ret \<noteq> 0 then ret
               else mkqs_range_tiebreak_loop tuple1 tuple2 (depth + 1) state)
      else 0)"
  by pat_completeness auto
termination
  by (relation "measure (\<lambda>(t1, t2, depth, state). nKeys state - depth)") auto

declare mkqs_range_tiebreak_loop.simps [simp del]

definition mkqs_compare_tuple_by_range_tiebreak ::
  "('d, 'p) SortTuple \<Rightarrow> ('d, 'p) SortTuple \<Rightarrow> nat \<Rightarrow> ('d, 'p, 'k, 'e) Tuplesortstate \<Rightarrow> int" where
  "mkqs_compare_tuple_by_range_tiebreak tuple1 tuple2 depth state =
     (if depth = 0
      then (let sortKey = sortKeys state ! depth;
                ret = (if abbrev_converter sortKey
                       then (let ((datum1', isNull1), (datum2', isNull2)) =
                                    mkqsGetDatumFunc state tuple1 (Some tuple2) depth
                             in ApplySortAbbrevFullComparator state datum1' isNull1 datum2' isNull2 sortKey)
                       else 0)
            in if ret \<noteq> 0 then ret
               else mkqs_range_tiebreak_loop tuple1 tuple2 (depth + 1) state)
      else mkqs_range_tiebreak_loop tuple1 tuple2 depth state)"

definition mkqs_compare_tuple_by_range ::
  "('d, 'p) SortTuple \<Rightarrow> ('d, 'p) SortTuple \<Rightarrow> nat \<Rightarrow> ('d, 'p, 'k, 'e) Tuplesortstate \<Rightarrow> int" where
  "mkqs_compare_tuple_by_range tuple1 tuple2 depth state =
     (if depth = 0
      then (let ret = mkqs_compare_datum_by_shortcut tuple1 tuple2 state
            in if ret \<noteq> 0 then ret
               else mkqs_compare_tuple_by_range_tiebreak tuple1 tuple2 depth state)
      else mkqs_compare_tuple_by_range_tiebreak tuple1 tuple2 depth state)"

text \<open>
  \<^verbatim>\<open>mkqs_compare_tuple\<close>: the whole-tuple comparator of the specialised kinds. With
  \<^verbatim>\<open>MKQS_COMP_FUNC_GENERIC\<close> the C code asserts false and returns its initial \<^verbatim>\<open>ret = 0\<close>.
\<close>

definition mkqs_compare_tuple ::
  "('d, 'p) SortTuple \<Rightarrow> ('d, 'p) SortTuple \<Rightarrow> ('d, 'p, 'k, 'e) Tuplesortstate \<Rightarrow> int" where
  "mkqs_compare_tuple a b state =
     (let compFuncType = mkqsCompFuncType state
      in if compFuncType = MKQS_COMP_FUNC_UNSIGNED then qsort_tuple_unsigned_compare state a b
         else if compFuncType = MKQS_COMP_FUNC_SIGNED then qsort_tuple_signed_compare state a b
         else if compFuncType = MKQS_COMP_FUNC_INT32 then qsort_tuple_int32_compare state a b
         else 0)"

subsection \<open>Interrupts and errors\<close>

text \<open>
  An error unwinds the sort and leaves the array as it is at that moment: a cancellation
  raised by \<^verbatim>\<open>CHECK_FOR_INTERRUPTS\<close>, or an error raised by the duplicate handler.
\<close>

datatype 'e mkqs_error = QueryCanceled | DupHandlerError 'e

text \<open>
  Modelled from the spec: \<^verbatim>\<open>CHECK_FOR_INTERRUPTS\<close> is a macro defined outside this file.
  The specification: a probe that returns nothing and "may cancel by raising an unwinding
  error". The state of the probe is the number of probes that still pass before a
  pending cancellation is seen, \<open>None\<close> when no cancellation arrives.
\<close>

definition CHECK_FOR_INTERRUPTS :: "nat option \<Rightarrow> 'e mkqs_error + nat option" where
  "CHECK_FOR_INTERRUPTS w =
     (case w of None \<Rightarrow> Inr None | Some 0 \<Rightarrow> Inl QueryCanceled | Some (Suc k) \<Rightarrow> Inr (Some k))"

subsection \<open>The pre-ordered check\<close>

text \<open>
  The loop of the specialised kinds: \<^verbatim>\<open>for (i = 0; i < n - 1; i++)\<close>, left with
  \<^verbatim>\<open>preOrdered = false\<close> at the first pair whose whole-tuple comparison is positive.
\<close>

function mkqs_pre_ordered_loop ::
  "('d, 'p) SortTuple list \<Rightarrow> int \<Rightarrow> ('d, 'p, 'k, 'e) Tuplesortstate \<Rightarrow> int \<Rightarrow> nat option \<Rightarrow>
   'e mkqs_error + (bool \<times> nat option)" where
  "mkqs_pre_ordered_loop x n state i w =
     (if i < n - 1
      then (case CHECK_FOR_INTERRUPTS w of
              Inl e \<Rightarrow> Inl e
            | Inr w' \<Rightarrow>
                if mkqs_compare_tuple (x ! nat i) (x ! nat (i + 1)) state > 0 then Inr (False, w')
                else mkqs_pre_ordered_loop x n state (i + 1) w')
      else Inr (True, w))"
  by pat_completeness auto
termination
  by (relation "measure (\<lambda>(x, n, state, i, w). nat (n - 1 - i))") auto

declare mkqs_pre_ordered_loop.simps [simp del]

text \<open>
  The loop of the generic kind, left with \<^verbatim>\<open>strictOrdered = false\<close> at the first pair
  whose comparison at this depth is not negative.
\<close>

function mkqs_strict_ordered_loop ::
  "('d, 'p) SortTuple list \<Rightarrow> int \<Rightarrow> nat \<Rightarrow> ('d, 'p, 'k, 'e) Tuplesortstate \<Rightarrow> int \<Rightarrow> nat option \<Rightarrow>
   'e mkqs_error + (bool \<times> nat option)" where
  "mkqs_strict_ordered_loop x n depth state i w =
     (if i < n - 1
      then (case CHECK_FOR_INTERRUPTS w of
              Inl e \<Rightarrow> Inl e
            | Inr w' \<Rightarrow>
                if mkqs_compare_datum (x ! nat i) (x ! nat (i + 1)) depth state \<ge> 0
                then Inr (False, w')
                else mkqs_strict_ordered_loop x n depth state (i + 1) w')
      else Inr (True, w))"
  by pat_completeness auto
termination
  by (relation "measure (\<lambda>(x, n, depth, state, i, w). nat (n - 1 - i))") auto

declare mkqs_strict_ordered_loop.simps [simp del]

text \<open>
  The whole check: \<open>Inr (True, _)\<close> when \<^verbatim>\<open>mk_qsort_tuple\<close> returns at once. A specialised
  kind checks at depth 0 only and goes on at every other depth.
\<close>

definition mkqs_pre_ordered_check ::
  "('d, 'p) SortTuple list \<Rightarrow> int \<Rightarrow> nat \<Rightarrow> ('d, 'p, 'k, 'e) Tuplesortstate \<Rightarrow> nat option \<Rightarrow>
   'e mkqs_error + (bool \<times> nat option)" where
  "mkqs_pre_ordered_check x n depth state w =
     (if mkqsCompFuncType state \<noteq> MKQS_COMP_FUNC_GENERIC
      then (if depth = 0 then mkqs_pre_ordered_loop x n state 0 w else Inr (False, w))
      else mkqs_strict_ordered_loop x n depth state 0 w)"

subsection \<open>The small-range sort\<close>

text \<open>The inner loop \<^verbatim>\<open>for (l = m; l > 0; l--)\<close>, left at the first pair in order.\<close>

function mkqs_bubble_inner ::
  "('d, 'p) SortTuple list \<Rightarrow> nat \<Rightarrow> ('d, 'p, 'k, 'e) Tuplesortstate \<Rightarrow> int \<Rightarrow> ('d, 'p) SortTuple list" where
  "mkqs_bubble_inner x depth state l =
     (if l > 0
      then (if mkqs_compare_tuple_by_range (x ! nat (l - 1)) (x ! nat l) depth state \<le> 0 then x
            else mkqs_bubble_inner (mkqs_swap l (l - 1) x) depth state (l - 1))
      else x)"
  by pat_completeness auto
termination
  by (relation "measure (\<lambda>(x, depth, state, l). nat l)") auto

declare mkqs_bubble_inner.simps [simp del]

text \<open>The outer loop \<^verbatim>\<open>for (m = 0; m < n; m++)\<close>.\<close>

function mkqs_bubble_outer ::
  "('d, 'p) SortTuple list \<Rightarrow> int \<Rightarrow> nat \<Rightarrow> ('d, 'p, 'k, 'e) Tuplesortstate \<Rightarrow> int \<Rightarrow> ('d, 'p) SortTuple list" where
  "mkqs_bubble_outer x n depth state m =
     (if m < n then mkqs_bubble_outer (mkqs_bubble_inner x depth state m) n depth state (m + 1)
      else x)"
  by pat_completeness auto
termination
  by (relation "measure (\<lambda>(x, n, depth, state, m). nat (n - m))") auto

declare mkqs_bubble_outer.simps [simp del]

subsection \<open>Pivot selection\<close>

definition mkqs_select_pivot ::
  "('d, 'p) SortTuple list \<Rightarrow> int \<Rightarrow> nat \<Rightarrow> ('d, 'p, 'k, 'e) Tuplesortstate \<Rightarrow> int" where
  "mkqs_select_pivot x n depth state =
     (if n > 7
      then (let m = n div 2; l = 0; r = n - 1
            in if n > 40
               then (let d = n div 8;
                         l' = get_median_from_three l (l + d) (l + 2 * d) x depth state;
                         m' = get_median_from_three (m - d) m (m + d) x depth state;
                         r' = get_median_from_three (r - 2 * d) (r - d) r x depth state
                     in get_median_from_three l' m' r' x depth state)
               else get_median_from_three l m r x depth state)
      else n div 2)"

subsection \<open>The three-way partition\<close>

text \<open>
  The first inner loop, over \<open>(x, lessStart, lessEnd)\<close>. The pivot is the pointer \<^verbatim>\<open>x\<close>
  itself, so it is read from cell 0 of the current array at every comparison.
\<close>

function mkqs_scan_left ::
  "nat \<Rightarrow> ('d, 'p, 'k, 'e) Tuplesortstate \<Rightarrow> int \<Rightarrow> ('d, 'p) SortTuple list \<Rightarrow> int \<Rightarrow> int \<Rightarrow>
   ('d, 'p) SortTuple list \<times> int \<times> int" where
  "mkqs_scan_left depth state greaterStart x lessStart lessEnd =
     (if lessEnd \<le> greaterStart
      then (let dist = mkqs_compare_datum (x ! nat lessEnd) (x ! 0) depth state
            in if dist > 0 then (x, lessStart, lessEnd)
               else if dist = 0
               then mkqs_scan_left depth state greaterStart
                      (mkqs_swap lessEnd lessStart x) (lessStart + 1) (lessEnd + 1)
               else mkqs_scan_left depth state greaterStart x lessStart (lessEnd + 1))
      else (x, lessStart, lessEnd))"
  by pat_completeness auto
termination
  by (relation "measure (\<lambda>(depth, state, gs, x, ls, le). nat (gs + 1 - le))") auto

declare mkqs_scan_left.simps [simp del]

text \<open>The second inner loop, over \<open>(x, greaterStart, greaterEnd)\<close>.\<close>

function mkqs_scan_right ::
  "nat \<Rightarrow> ('d, 'p, 'k, 'e) Tuplesortstate \<Rightarrow> int \<Rightarrow> ('d, 'p) SortTuple list \<Rightarrow> int \<Rightarrow> int \<Rightarrow>
   ('d, 'p) SortTuple list \<times> int \<times> int" where
  "mkqs_scan_right depth state lessEnd x greaterStart greaterEnd =
     (if lessEnd \<le> greaterStart
      then (let dist = mkqs_compare_datum (x ! nat greaterStart) (x ! 0) depth state
            in if dist < 0 then (x, greaterStart, greaterEnd)
               else if dist = 0
               then mkqs_scan_right depth state lessEnd
                      (mkqs_swap greaterStart greaterEnd x) (greaterStart - 1) (greaterEnd - 1)
               else mkqs_scan_right depth state lessEnd x (greaterStart - 1) greaterEnd)
      else (x, greaterStart, greaterEnd))"
  by pat_completeness auto
termination
  by (relation "measure (\<lambda>(depth, state, le, x, gs, ge). nat (gs + 1 - le))") auto

declare mkqs_scan_right.simps [simp del]

lemma mkqs_scan_left_mono:
  "mkqs_scan_left depth state gs x ls le = (x', ls', le') \<Longrightarrow> le \<le> le'"
proof (induction depth state gs x ls le rule: mkqs_scan_left.induct)
  case (1 depth state gs x ls le)
  then show ?case
    by (simp add: mkqs_scan_left.simps [of depth state gs x ls le] Let_def split: if_splits)
qed

lemma mkqs_scan_right_mono:
  "mkqs_scan_right depth state le x gs ge = (x', gs', ge') \<Longrightarrow> gs' \<le> gs"
proof (induction depth state le x gs ge rule: mkqs_scan_right.induct)
  case (1 depth state le x gs ge)
  then show ?case
    by (simp add: mkqs_scan_right.simps [of depth state le x gs ge] Let_def split: if_splits)
qed

text \<open>
  The outer \<^verbatim>\<open>while (true)\<close> loop, over \<open>(x, lessStart, lessEnd, greaterStart, greaterEnd)\<close>.
  A cancellation leaves it with the array as it is.
\<close>

function mkqs_partition_loop ::
  "nat \<Rightarrow> ('d, 'p, 'k, 'e) Tuplesortstate \<Rightarrow> ('d, 'p) SortTuple list \<Rightarrow> int \<Rightarrow> int \<Rightarrow> int \<Rightarrow> int \<Rightarrow>
   nat option \<Rightarrow> ('d, 'p) SortTuple list \<times> ('e mkqs_error + (int \<times> int \<times> int \<times> int) \<times> nat option)" where
  "mkqs_partition_loop depth state x lessStart lessEnd greaterStart greaterEnd w =
     (case CHECK_FOR_INTERRUPTS w of
        Inl e \<Rightarrow> (x, Inl e)
      | Inr w' \<Rightarrow>
          (case mkqs_scan_left depth state greaterStart x lessStart lessEnd of
             (x1, lessStart1, lessEnd1) \<Rightarrow>
               (case mkqs_scan_right depth state lessEnd1 x1 greaterStart greaterEnd of
                  (x2, greaterStart1, greaterEnd1) \<Rightarrow>
                    if lessEnd1 > greaterStart1
                    then (x2, Inr ((lessStart1, lessEnd1, greaterStart1, greaterEnd1), w'))
                    else mkqs_partition_loop depth state
                           (mkqs_swap lessEnd1 greaterStart1 x2)
                           lessStart1 (lessEnd1 + 1) (greaterStart1 - 1) greaterEnd1 w')))"
  by pat_completeness auto
termination
  by (relation "measure (\<lambda>(depth, state, x, ls, le, gs, ge, w). nat (gs + 1 - le))")
    (auto dest!: mkqs_scan_left_mono [OF sym] mkqs_scan_right_mono [OF sym])

declare mkqs_partition_loop.simps [simp del]

text \<open>
  Pivot selection, the move of the pivot to cell 0, the partition loop and the two block
  swaps that fold the equal tuples of both ends into the middle. The result holds the
  four index variables as the loop left them.
\<close>

definition mkqs_partition ::
  "('d, 'p) SortTuple list \<Rightarrow> int \<Rightarrow> nat \<Rightarrow> ('d, 'p, 'k, 'e) Tuplesortstate \<Rightarrow> nat option \<Rightarrow>
   ('d, 'p) SortTuple list \<times> ('e mkqs_error + (int \<times> int \<times> int \<times> int) \<times> nat option)" where
  "mkqs_partition x n depth state w =
     (let lessStart = mkqs_select_pivot x n depth state;
          x0 = mkqs_swap 0 lessStart x
      in case mkqs_partition_loop depth state x0 1 1 (n - 1) (n - 1) w of
           (x1, Inl e) \<Rightarrow> (x1, Inl e)
         | (x1, Inr ((lessStart, lessEnd, greaterStart, greaterEnd), w')) \<Rightarrow>
             (let dist = min lessStart (lessEnd - lessStart);
                  x2 = mkqs_vec_swap 0 (lessEnd - dist) dist x1;
                  dist = min (greaterEnd - greaterStart) (n - greaterEnd - 1);
                  x3 = mkqs_vec_swap lessEnd (n - dist) dist x2
              in (x3, Inr ((lessStart, lessEnd, greaterStart, greaterEnd), w'))))"

subsection \<open>Swaps and the partition invariant\<close>

lemma mkqs_swap_length [simp]: "length (mkqs_swap a b x) = length x"
  by (simp add: mkqs_swap_def Let_def)

lemma mkqs_swap_mset:
  "0 \<le> a \<Longrightarrow> a < int (length x) \<Longrightarrow> 0 \<le> b \<Longrightarrow> b < int (length x) \<Longrightarrow>
   mset (mkqs_swap a b x) = mset x"
  by (simp add: mkqs_swap_def Let_def mset_swap)

lemma mkqs_swap_nth:
  "0 \<le> a \<Longrightarrow> a < int (length x) \<Longrightarrow> 0 \<le> b \<Longrightarrow> b < int (length x) \<Longrightarrow> i < length x \<Longrightarrow>
   mkqs_swap a b x ! i = (if int i = a then x ! nat b else if int i = b then x ! nat a else x ! i)"
  by (auto simp: mkqs_swap_def Let_def nth_list_update)

definition mkqs_part_inv ::
  "nat \<Rightarrow> ('d, 'p, 'k, 'e) Tuplesortstate \<Rightarrow> ('d, 'p) SortTuple \<Rightarrow> ('d, 'p) SortTuple multiset \<Rightarrow> int \<Rightarrow>
   ('d, 'p) SortTuple list \<Rightarrow> int \<Rightarrow> int \<Rightarrow> int \<Rightarrow> int \<Rightarrow> bool" where
  "mkqs_part_inv depth state p M n x ls le gs ge \<longleftrightarrow>
     int (length x) = n \<and> mset x = M \<and> x ! 0 = p \<and>
     1 \<le> ls \<and> ls \<le> le \<and> le \<le> gs + 1 \<and> gs \<le> ge \<and> ge \<le> n - 1 \<and>
     (\<forall>i. 0 < i \<and> int i < ls \<longrightarrow> mkqs_compare_datum (x ! i) p depth state = 0) \<and>
     (\<forall>i. ls \<le> int i \<and> int i < le \<longrightarrow> mkqs_compare_datum (x ! i) p depth state < 0) \<and>
     (\<forall>i. gs < int i \<and> int i \<le> ge \<longrightarrow> mkqs_compare_datum (x ! i) p depth state > 0) \<and>
     (\<forall>i. ge < int i \<and> int i < n \<longrightarrow> mkqs_compare_datum (x ! i) p depth state = 0)"

lemma part_inv_step_less:
  assumes "mkqs_part_inv depth state p M n x ls le gs ge" "le \<le> gs"
    "mkqs_compare_datum (x ! nat le) p depth state < 0"
  shows "mkqs_part_inv depth state p M n x ls (le + 1) gs ge"
  using assms unfolding mkqs_part_inv_def
  apply (intro conjI; (elim conjE)?; simp?)
  apply (intro allI impI)
  subgoal for i by (cases "int i = le") auto
  done

lemma part_inv_step_eq_left:
  assumes "mkqs_part_inv depth state p M n x ls le gs ge" "le \<le> gs"
    "mkqs_compare_datum (x ! nat le) p depth state = 0"
  shows "mkqs_part_inv depth state p M n (mkqs_swap le ls x) (ls + 1) (le + 1) gs ge"
proof -
  from assms have b: "0 \<le> le" "le < int (length x)" "0 \<le> ls" "ls < int (length x)" "ls \<le> le"
    by (auto simp: mkqs_part_inv_def)
  have nth: "\<And>i. i < length x \<Longrightarrow> mkqs_swap le ls x ! i =
      (if int i = le then x ! nat ls else if int i = ls then x ! nat le else x ! i)"
    using mkqs_swap_nth [OF b(1-4)] by simp
  have len: "int (length x) = n" using assms by (simp add: mkqs_part_inv_def)
  show ?thesis
    unfolding mkqs_part_inv_def
  proof (intro conjI allI impI)
    show "mset (mkqs_swap le ls x) = M"
      using assms(1) mkqs_swap_mset [OF b(1-4)] by (simp add: mkqs_part_inv_def)
    have "0 < length x" using b by auto
    then show "mkqs_swap le ls x ! 0 = p"
      using assms(1) b nth [of 0] by (auto simp: mkqs_part_inv_def)
  next
    fix i assume "0 < i \<and> int i < ls + 1"
    then show "mkqs_compare_datum (mkqs_swap le ls x ! i) p depth state = 0"
      using assms b len nth [of i] by (cases "int i = ls") (auto simp: mkqs_part_inv_def)
  next
    fix i assume h: "ls + 1 \<le> int i \<and> int i < le + 1"
    then have "mkqs_swap le ls x ! i = (if int i = le then x ! nat ls else x ! i)"
      using b nth [of i] by auto
    moreover have "mkqs_compare_datum (x ! nat ls) p depth state < 0" if "int i = le"
      using assms(1) h that b by (auto simp: mkqs_part_inv_def dest!: spec [of _ "nat ls"])
    ultimately show "mkqs_compare_datum (mkqs_swap le ls x ! i) p depth state < 0"
      using assms(1) h by (auto simp: mkqs_part_inv_def)
  next
    fix i assume h: "gs < int i \<and> int i \<le> ge"
    then have "mkqs_swap le ls x ! i = x ! i"
      using b nth [of i] assms len by (auto simp: mkqs_part_inv_def)
    then show "0 < mkqs_compare_datum (mkqs_swap le ls x ! i) p depth state"
      using assms(1) h by (auto simp: mkqs_part_inv_def)
  next
    fix i assume h: "ge < int i \<and> int i < n"
    then have "mkqs_swap le ls x ! i = x ! i"
      using b nth [of i] assms len by (auto simp: mkqs_part_inv_def)
    then show "mkqs_compare_datum (mkqs_swap le ls x ! i) p depth state = 0"
      using assms(1) h by (auto simp: mkqs_part_inv_def)
  qed (use assms in \<open>auto simp: mkqs_part_inv_def\<close>)
qed


lemma part_inv_step_greater:
  assumes "mkqs_part_inv depth state p M n x ls le gs ge" "le \<le> gs"
    "mkqs_compare_datum (x ! nat gs) p depth state > 0"
  shows "mkqs_part_inv depth state p M n x ls le (gs - 1) ge"
  using assms unfolding mkqs_part_inv_def
  apply (intro conjI; (elim conjE)?; simp?)
  apply (intro allI impI)
  subgoal for i by (cases "int i = gs") auto
  done

lemma part_inv_step_eq_right:
  assumes "mkqs_part_inv depth state p M n x ls le gs ge" "le \<le> gs"
    "mkqs_compare_datum (x ! nat gs) p depth state = 0"
  shows "mkqs_part_inv depth state p M n (mkqs_swap gs ge x) ls le (gs - 1) (ge - 1)"
proof -
  from assms have b: "0 \<le> gs" "gs < int (length x)" "0 \<le> ge" "ge < int (length x)" "gs \<le> ge"
    "1 \<le> gs"
    by (auto simp: mkqs_part_inv_def)
  have nth: "\<And>i. i < length x \<Longrightarrow> mkqs_swap gs ge x ! i =
      (if int i = gs then x ! nat ge else if int i = ge then x ! nat gs else x ! i)"
    using mkqs_swap_nth [OF b(1-4)] by simp
  have len: "int (length x) = n" using assms by (simp add: mkqs_part_inv_def)
  show ?thesis
    unfolding mkqs_part_inv_def
  proof (intro conjI allI impI)
    show "mset (mkqs_swap gs ge x) = M"
      using assms(1) mkqs_swap_mset [OF b(1-4)] by (simp add: mkqs_part_inv_def)
    have "0 < length x" using b by auto
    then show "mkqs_swap gs ge x ! 0 = p"
      using assms(1) b nth [of 0] by (auto simp: mkqs_part_inv_def)
  next
    fix i assume h: "0 < i \<and> int i < ls"
    then have "mkqs_swap gs ge x ! i = x ! i"
      using b nth [of i] assms len by (auto simp: mkqs_part_inv_def)
    then show "mkqs_compare_datum (mkqs_swap gs ge x ! i) p depth state = 0"
      using assms(1) h by (auto simp: mkqs_part_inv_def)
  next
    fix i assume h: "ls \<le> int i \<and> int i < le"
    then have "mkqs_swap gs ge x ! i = x ! i"
      using b nth [of i] assms len by (auto simp: mkqs_part_inv_def)
    then show "mkqs_compare_datum (mkqs_swap gs ge x ! i) p depth state < 0"
      using assms(1) h by (auto simp: mkqs_part_inv_def)
  next
    fix i assume h: "gs - 1 < int i \<and> int i \<le> ge - 1"
    then have "mkqs_swap gs ge x ! i = (if int i = gs then x ! nat ge else x ! i)"
      using b nth [of i] by auto
    moreover have "mkqs_compare_datum (x ! nat ge) p depth state > 0" if "int i = gs"
      using assms(1) h that b by (auto simp: mkqs_part_inv_def dest!: spec [of _ "nat ge"])
    ultimately show "0 < mkqs_compare_datum (mkqs_swap gs ge x ! i) p depth state"
      using assms(1) h by (auto simp: mkqs_part_inv_def)
  next
    fix i assume h: "ge - 1 < int i \<and> int i < n"
    then show "mkqs_compare_datum (mkqs_swap gs ge x ! i) p depth state = 0"
      using assms b len nth [of i] by (cases "int i = ge") (auto simp: mkqs_part_inv_def)
  qed (use assms in \<open>auto simp: mkqs_part_inv_def\<close>)
qed

lemma part_inv_step_swap:
  assumes "mkqs_part_inv depth state p M n x ls le gs ge" "le \<le> gs"
    "mkqs_compare_datum (x ! nat le) p depth state > 0"
    "mkqs_compare_datum (x ! nat gs) p depth state < 0"
  shows "mkqs_part_inv depth state p M n (mkqs_swap le gs x) ls (le + 1) (gs - 1) ge"
proof -
  from assms have ne: "le \<noteq> gs" by auto
  from assms have b: "0 \<le> le" "le < int (length x)" "0 \<le> gs" "gs < int (length x)" "1 \<le> le"
    by (auto simp: mkqs_part_inv_def)
  have nth: "\<And>i. i < length x \<Longrightarrow> mkqs_swap le gs x ! i =
      (if int i = le then x ! nat gs else if int i = gs then x ! nat le else x ! i)"
    using mkqs_swap_nth [OF b(1-4)] by simp
  have len: "int (length x) = n" using assms by (simp add: mkqs_part_inv_def)
  show ?thesis
    unfolding mkqs_part_inv_def
  proof (intro conjI allI impI)
    show "mset (mkqs_swap le gs x) = M"
      using assms(1) mkqs_swap_mset [OF b(1-4)] by (simp add: mkqs_part_inv_def)
    have "0 < length x" using b by auto
    then show "mkqs_swap le gs x ! 0 = p"
      using assms(1,2) b nth [of 0] by (auto simp: mkqs_part_inv_def)
  next
    fix i assume h: "0 < i \<and> int i < ls"
    then have "mkqs_swap le gs x ! i = x ! i"
      using b nth [of i] assms len by (auto simp: mkqs_part_inv_def)
    then show "mkqs_compare_datum (mkqs_swap le gs x ! i) p depth state = 0"
      using assms(1) h by (auto simp: mkqs_part_inv_def)
  next
    fix i assume h: "ls \<le> int i \<and> int i < le + 1"
    then have "mkqs_swap le gs x ! i = (if int i = le then x ! nat gs else x ! i)"
      using b nth [of i] assms len by (auto simp: mkqs_part_inv_def)
    then show "mkqs_compare_datum (mkqs_swap le gs x ! i) p depth state < 0"
      using assms h by (auto simp: mkqs_part_inv_def)
  next
    fix i assume h: "gs - 1 < int i \<and> int i \<le> ge"
    then have "mkqs_swap le gs x ! i = (if int i = gs then x ! nat le else x ! i)"
      using b nth [of i] assms len by (auto simp: mkqs_part_inv_def)
    then show "0 < mkqs_compare_datum (mkqs_swap le gs x ! i) p depth state"
      using assms h by (auto simp: mkqs_part_inv_def)
  next
    fix i assume h: "ge < int i \<and> int i < n"
    then have "mkqs_swap le gs x ! i = x ! i"
      using b nth [of i] assms len by (auto simp: mkqs_part_inv_def)
    then show "mkqs_compare_datum (mkqs_swap le gs x ! i) p depth state = 0"
      using assms(1) h by (auto simp: mkqs_part_inv_def)
  qed (use assms ne in \<open>auto simp: mkqs_part_inv_def\<close>)
qed

lemma part_inv_pivot: "mkqs_part_inv depth state p M n x ls le gs ge \<Longrightarrow> x ! 0 = p"
  by (simp add: mkqs_part_inv_def)

lemma mkqs_scan_left_inv:
  "mkqs_part_inv depth state p M n x ls le gs ge \<Longrightarrow>
   mkqs_scan_left depth state gs x ls le = (x', ls', le') \<Longrightarrow>
   mkqs_part_inv depth state p M n x' ls' le' gs ge \<and>
   (le' \<le> gs \<longrightarrow> mkqs_compare_datum (x' ! nat le') p depth state > 0)"
proof (induction depth state gs x ls le rule: mkqs_scan_left.induct)
  case (1 depth state gs x ls le)
  note inv = "1.prems"(1) and run = "1.prems"(2)
  have p: "x ! 0 = p" using inv by (rule part_inv_pivot)
  show ?case
  proof (cases "le \<le> gs")
    case False
    with inv run show ?thesis
      by (simp add: mkqs_scan_left.simps [of depth state gs x ls le])
  next
    case True
    let ?d = "mkqs_compare_datum (x ! nat le) p depth state"
    consider "?d > 0" | "?d = 0" | "?d < 0" by linarith
    then show ?thesis
    proof cases
      case 1
      with True inv run p show ?thesis
        by (simp add: mkqs_scan_left.simps [of depth state gs x ls le] Let_def)
    next
      case 2
      have run': "mkqs_scan_left depth state gs (mkqs_swap le ls x) (ls + 1) (le + 1) = (x', ls', le')"
        using run True 2 p by (simp add: mkqs_scan_left.simps [of depth state gs x ls le] Let_def)
      show ?thesis
        using "1.IH"(1) [OF True refl _ _ part_inv_step_eq_left [OF inv True 2] run'] 2 p
        by simp
    next
      case 3
      have run': "mkqs_scan_left depth state gs x ls (le + 1) = (x', ls', le')"
        using run True 3 p by (simp add: mkqs_scan_left.simps [of depth state gs x ls le] Let_def)
      show ?thesis
        using "1.IH"(2) [OF True refl _ _ part_inv_step_less [OF inv True 3] run'] 3 p
        by simp
    qed
  qed
qed

lemma mkqs_scan_right_inv:
  "mkqs_part_inv depth state p M n x ls le gs ge \<Longrightarrow>
   mkqs_scan_right depth state le x gs ge = (x', gs', ge') \<Longrightarrow>
   mkqs_part_inv depth state p M n x' ls le gs' ge' \<and>
   (le \<le> gs' \<longrightarrow> mkqs_compare_datum (x' ! nat gs') p depth state < 0) \<and>
   (le \<le> gs' \<longrightarrow> x' ! nat le = x ! nat le)"
proof (induction depth state le x gs ge rule: mkqs_scan_right.induct)
  case (1 depth state le x gs ge)
  note inv = "1.prems"(1) and run = "1.prems"(2)
  have p: "x ! 0 = p" using inv by (rule part_inv_pivot)
  show ?case
  proof (cases "le \<le> gs")
    case False
    with inv run show ?thesis
      by (simp add: mkqs_scan_right.simps [of depth state le x gs ge])
  next
    case True
    let ?d = "mkqs_compare_datum (x ! nat gs) p depth state"
    consider "?d < 0" | "?d = 0" | "?d > 0" by linarith
    then show ?thesis
    proof cases
      case 1
      with True inv run p show ?thesis
        by (simp add: mkqs_scan_right.simps [of depth state le x gs ge] Let_def)
    next
      case 2
      have run': "mkqs_scan_right depth state le (mkqs_swap gs ge x) (gs - 1) (ge - 1) = (x', gs', ge')"
        using run True 2 p by (simp add: mkqs_scan_right.simps [of depth state le x gs ge] Let_def)
      from inv True have b: "0 \<le> gs" "gs < int (length x)" "0 \<le> ge" "ge < int (length x)"
        "0 \<le> le" "le < int (length x)" "gs \<le> ge"
        by (auto simp: mkqs_part_inv_def)
      have keep: "le \<le> gs - 1 \<Longrightarrow> mkqs_swap gs ge x ! nat le = x ! nat le"
        using mkqs_swap_nth [OF b(1-4), of "nat le"] b by auto
      show ?thesis
        using "1.IH"(1) [OF True refl _ _ part_inv_step_eq_right [OF inv True 2] run'] 2 p keep True
          mkqs_scan_right_mono [OF run']
        by auto
    next
      case 3
      have run': "mkqs_scan_right depth state le x (gs - 1) ge = (x', gs', ge')"
        using run True 3 p by (simp add: mkqs_scan_right.simps [of depth state le x gs ge] Let_def)
      show ?thesis
        using "1.IH"(2) [OF True refl _ _ part_inv_step_greater [OF inv True 3] run'] 3 p True
        by auto
    qed
  qed
qed


lemma mkqs_partition_loop_inv:
  fixes state :: "('d, 'p, 'k, 'e) Tuplesortstate"
  shows "mkqs_part_inv depth state p M n x ls le gs ge \<Longrightarrow>
   mkqs_partition_loop depth state x ls le gs ge w = (x', r) \<Longrightarrow>
   int (length x') = n \<and> mset x' = M \<and>
   (\<forall>ls' le' gs' ge' w'. r = Inr ((ls', le', gs', ge'), w') \<longrightarrow>
      mkqs_part_inv depth state p M n x' ls' le' gs' ge' \<and> le' = gs' + 1)"
proof (induction depth state x ls le gs ge w rule: mkqs_partition_loop.induct)
  case (1 depth state x ls le gs ge w)
  note inv = "1.prems"(1) and run = "1.prems"(2)
  show ?case
  proof (cases "CHECK_FOR_INTERRUPTS w :: 'e mkqs_error + nat option")
    case (Inl e)
    with inv run show ?thesis
      by (auto simp: mkqs_partition_loop.simps [of depth state x ls le gs ge w] mkqs_part_inv_def)
  next
    case (Inr w1)
    obtain x1 ls1 le1 where sl: "mkqs_scan_left depth state gs x ls le = (x1, ls1, le1)"
      by (metis prod_cases3)
    obtain x2 gs1 ge1 where sr: "mkqs_scan_right depth state le1 x1 gs ge = (x2, gs1, ge1)"
      by (metis prod_cases3)
    from mkqs_scan_left_inv [OF inv sl]
    have inv1: "mkqs_part_inv depth state p M n x1 ls1 le1 gs ge"
      and gt: "le1 \<le> gs \<longrightarrow> mkqs_compare_datum (x1 ! nat le1) p depth state > 0" by auto
    from mkqs_scan_right_inv [OF inv1 sr]
    have inv2: "mkqs_part_inv depth state p M n x2 ls1 le1 gs1 ge1"
      and lt: "le1 \<le> gs1 \<longrightarrow> mkqs_compare_datum (x2 ! nat gs1) p depth state < 0"
      and keep: "le1 \<le> gs1 \<longrightarrow> x2 ! nat le1 = x1 ! nat le1" by auto
    show ?thesis
    proof (cases "le1 > gs1")
      case True
      then have "x' = x2" "r = Inr ((ls1, le1, gs1, ge1), w1)"
        using run Inr sl sr
        by (simp_all add: mkqs_partition_loop.simps [of depth state x ls le gs ge w])
      with inv2 True show ?thesis by (auto simp: mkqs_part_inv_def)
    next
      case False
      then have le: "le1 \<le> gs1" by simp
      have "gs1 \<le> gs" using mkqs_scan_right_mono [OF sr] .
      with le gt keep have gt2: "mkqs_compare_datum (x2 ! nat le1) p depth state > 0" by auto
      from le lt have lt2: "mkqs_compare_datum (x2 ! nat gs1) p depth state < 0" by auto
      have run': "mkqs_partition_loop depth state (mkqs_swap le1 gs1 x2) ls1 (le1 + 1) (gs1 - 1) ge1 w1
          = (x', r)"
        using run Inr sl sr False
        by (simp add: mkqs_partition_loop.simps [of depth state x ls le gs ge w])
      show ?thesis
        using "1.IH" [OF Inr sl [symmetric] refl sr [symmetric] refl False
            part_inv_step_swap [OF inv2 le gt2 lt2] run'] .
    qed
  qed
qed


lemma mkqs_vec_swap_length [simp]: "length (mkqs_vec_swap a b k x) = length x"
proof (induction a b k x rule: mkqs_vec_swap.induct)
  case (1 a b sz x)
  then show ?case by (simp add: mkqs_vec_swap.simps [of a b sz x])
qed

lemma mkqs_vec_swap_mset:
  "0 \<le> a \<Longrightarrow> a + k \<le> int (length x) \<Longrightarrow> 0 \<le> b \<Longrightarrow> b + k \<le> int (length x) \<Longrightarrow>
   mset (mkqs_vec_swap a b k x) = mset x"
proof (induction a b k x rule: mkqs_vec_swap.induct)
  case (1 a b sz x)
  show ?case
  proof (cases "sz > 0")
    case False
    then show ?thesis by (simp add: mkqs_vec_swap.simps [of a b sz x])
  next
    case True
    have "mset (mkqs_vec_swap (a + 1) (b + 1) (sz - 1) (mkqs_swap a b x)) = mset (mkqs_swap a b x)"
      using "1.IH" [OF True] "1.prems" by simp
    also have "\<dots> = mset x"
      using "1.prems" True by (intro mkqs_swap_mset) auto
    finally show ?thesis using True by (simp add: mkqs_vec_swap.simps [of a b sz x])
  qed
qed

lemma mkqs_vec_swap_nth:
  "0 \<le> a \<Longrightarrow> a + k \<le> b \<Longrightarrow> b + k \<le> int (length x) \<Longrightarrow> i < length x \<Longrightarrow>
   mkqs_vec_swap a b k x ! i =
     (if a \<le> int i \<and> int i < a + k then x ! nat (int i + (b - a))
      else if b \<le> int i \<and> int i < b + k then x ! nat (int i - (b - a))
      else x ! i)"
proof (induction a b k x rule: mkqs_vec_swap.induct)
  case (1 a b sz x)
  show ?case
  proof (cases "sz > 0")
    case False
    then show ?thesis by (auto simp: mkqs_vec_swap.simps [of a b sz x])
  next
    case True
    have b: "0 \<le> a" "a < int (length x)" "0 \<le> b" "b < int (length x)"
      using "1.prems" True by auto
    have nth: "\<And>j. j < length x \<Longrightarrow> mkqs_swap a b x ! j =
        (if int j = a then x ! nat b else if int j = b then x ! nat a else x ! j)"
      using mkqs_swap_nth [OF b] by simp
    have IH: "mkqs_vec_swap (a + 1) (b + 1) (sz - 1) (mkqs_swap a b x) ! i =
       (if a + 1 \<le> int i \<and> int i < a + sz then mkqs_swap a b x ! nat (int i + (b - a))
        else if b + 1 \<le> int i \<and> int i < b + sz then mkqs_swap a b x ! nat (int i - (b - a))
        else mkqs_swap a b x ! i)"
      using "1.IH" [OF True] "1.prems" by simp
    have eq: "mkqs_vec_swap a b sz x = mkqs_vec_swap (a + 1) (b + 1) (sz - 1) (mkqs_swap a b x)"
      using True by (simp add: mkqs_vec_swap.simps [of a b sz x])
    consider "int i = a" | "int i = b" | "a + 1 \<le> int i \<and> int i < a + sz"
      | "b + 1 \<le> int i \<and> int i < b + sz"
      | "\<not> (a \<le> int i \<and> int i < a + sz) \<and> \<not> (b \<le> int i \<and> int i < b + sz)"
      by linarith
    then show ?thesis
    proof cases
      case 1
      then show ?thesis using eq IH nth [of i] "1.prems" True by auto
    next
      case 2
      then show ?thesis using eq IH nth [of i] "1.prems" True by auto
    next
      case 3
      then have "mkqs_swap a b x ! nat (int i + (b - a)) = x ! nat (int i + (b - a))"
        using nth [of "nat (int i + (b - a))"] "1.prems" True by auto
      then show ?thesis using eq IH 3 "1.prems" by auto
    next
      case 4
      then have "mkqs_swap a b x ! nat (int i - (b - a)) = x ! nat (int i - (b - a))"
        using nth [of "nat (int i - (b - a))"] "1.prems" True by auto
      then show ?thesis using eq IH 4 "1.prems" by auto
    next
      case 5
      then show ?thesis using eq IH nth [of i] "1.prems" True by auto
    qed
  qed
qed

lemma mkqs_fold_block:
  assumes r: "0 \<le> a" "a \<le> m" "m \<le> b" "b \<le> int (length x)"
    and A: "\<forall>i. a \<le> int i \<and> int i < m \<longrightarrow> A (x ! i)"
    and B: "\<forall>i. m \<le> int i \<and> int i < b \<longrightarrow> B (x ! i)"
    and d: "d = min (m - a) (b - m)"
    and y: "y = mkqs_vec_swap a (b - d) d x"
  shows "(\<forall>i. a \<le> int i \<and> int i < a + (b - m) \<longrightarrow> B (y ! i)) \<and>
         (\<forall>i. a + (b - m) \<le> int i \<and> int i < b \<longrightarrow> A (y ! i)) \<and>
         (\<forall>i. i < length x \<and> \<not> (a \<le> int i \<and> int i < b) \<longrightarrow> y ! i = x ! i)"
proof -
  have "d \<le> m - a" "d \<le> b - m" "0 \<le> d" using r d by auto
  then have c: "0 \<le> a" "a + d \<le> b - d" "b - d + d \<le> int (length x)" "0 \<le> d"
    using r by auto
  have nth: "\<And>i. i < length x \<Longrightarrow> y ! i =
     (if a \<le> int i \<and> int i < a + d then x ! nat (int i + (b - d - a))
      else if b - d \<le> int i \<and> int i < b then x ! nat (int i - (b - d - a))
      else x ! i)"
    unfolding y using mkqs_vec_swap_nth [OF c(1-3)] by simp
  have "B (y ! i)" if h: "a \<le> int i" "int i < a + (b - m)" for i
  proof (cases "int i < a + d")
    case True
    have "B (x ! nat (int i + (b - d - a)))"
      using B h True r d by (intro B [rule_format]) auto
    then show ?thesis using nth [of i] h True r by auto
  next
    case False
    then have "y ! i = x ! i" using nth [of i] h r d by auto
    moreover have "B (x ! i)" using B h False r d by auto
    ultimately show ?thesis by simp
  qed
  moreover have "A (y ! i)" if h: "a + (b - m) \<le> int i" "int i < b" for i
  proof (cases "b - d \<le> int i")
    case True
    have "A (x ! nat (int i - (b - d - a)))"
      using h True r d by (intro A [rule_format]) auto
    moreover have "\<not> (a \<le> int i \<and> int i < a + d)" using True c by auto
    ultimately show ?thesis using nth [of i] h True r by auto
  next
    case False
    then have "y ! i = x ! i" using nth [of i] h r d by auto
    moreover have "A (x ! i)" using A h False r d by auto
    ultimately show ?thesis by simp
  qed
  moreover have "y ! i = x ! i" if "i < length x" "\<not> (a \<le> int i \<and> int i < b)" for i
    using nth [of i] that r d by auto
  ultimately show ?thesis by blast
qed

lemma get_median_from_three_cases:
  "get_median_from_three a b c x depth state \<in> {a, b, c}"
  by (simp add: get_median_from_three_def)

lemma mkqs_select_pivot_range:
  assumes "1 \<le> n"
  shows "0 \<le> mkqs_select_pivot x n depth state \<and> mkqs_select_pivot x n depth state < n"
proof (cases "n > 7")
  case False
  with assms show ?thesis by (simp add: mkqs_select_pivot_def)
next
  case True
  show ?thesis
  proof (cases "n > 40")
    case False
    have "get_median_from_three 0 (n div 2) (n - 1) x depth state \<in> {0, n div 2, n - 1}"
      by (rule get_median_from_three_cases)
    with True False show ?thesis by (auto simp: mkqs_select_pivot_def Let_def)
  next
    case big: True
    define l where "l = get_median_from_three 0 (n div 8) (2 * (n div 8)) x depth state"
    define m where "m = get_median_from_three (n div 2 - n div 8) (n div 2) (n div 2 + n div 8) x depth state"
    define r where "r = get_median_from_three (n - 1 - 2 * (n div 8)) (n - 1 - n div 8) (n - 1) x depth state"
    have "l \<in> {0, n div 8, 2 * (n div 8)}" unfolding l_def by (rule get_median_from_three_cases)
    then have l: "0 \<le> l \<and> l < n" using big by auto
    have "m \<in> {n div 2 - n div 8, n div 2, n div 2 + n div 8}"
      unfolding m_def by (rule get_median_from_three_cases)
    then have m: "0 \<le> m \<and> m < n" using big by auto
    have "r \<in> {n - 1 - 2 * (n div 8), n - 1 - n div 8, n - 1}"
      unfolding r_def by (rule get_median_from_three_cases)
    then have r: "0 \<le> r \<and> r < n" using big by auto
    have "get_median_from_three l m r x depth state \<in> {l, m, r}"
      by (rule get_median_from_three_cases)
    with l m r have "0 \<le> get_median_from_three l m r x depth state \<and>
        get_median_from_three l m r x depth state < n" by auto
    then show ?thesis
      using big by (simp add: mkqs_select_pivot_def Let_def l_def m_def r_def)
  qed
qed


lemma mkqs_part_inv_init:
  assumes "n = int (length x)" "1 \<le> n" "0 \<le> a" "a < n"
  shows "mkqs_part_inv depth state (x ! nat a) (mset x) n (mkqs_swap 0 a x) 1 1 (n - 1) (n - 1)"
proof -
  have "0 < length x" using assms by auto
  then have "mkqs_swap 0 a x ! 0 = x ! nat a"
    using mkqs_swap_nth [of 0 x a 0] assms by auto
  moreover have "mset (mkqs_swap 0 a x) = mset x"
    using assms by (intro mkqs_swap_mset) auto
  ultimately show ?thesis using assms by (auto simp: mkqs_part_inv_def)
qed

lemma mkqs_partition_perm:
  fixes state :: "('d, 'p, 'k, 'e) Tuplesortstate"
  assumes n: "n = int (length x)" "1 \<le> n"
    and run: "mkqs_partition x n depth state w = (x', r)"
  shows "length x' = length x \<and> mset x' = mset x"
proof -
  define a where "a = mkqs_select_pivot x n depth state"
  have a: "0 \<le> a" "a < n" using mkqs_select_pivot_range [OF n(2), of x depth state] by (auto simp: a_def)
  note inv0 = mkqs_part_inv_init [OF n a, of depth state]
  obtain x1 r1 where loop: "mkqs_partition_loop depth state (mkqs_swap 0 a x) 1 1 (n - 1) (n - 1) w = (x1, r1)"
    by (metis surj_pair)
  from mkqs_partition_loop_inv [OF inv0 loop]
  have len1: "int (length x1) = n" and m1: "mset x1 = mset x"
    and inv1: "\<And>ls le gs ge w'. r1 = Inr ((ls, le, gs, ge), w') \<Longrightarrow>
       mkqs_part_inv depth state (x ! nat a) (mset x) n x1 ls le gs ge \<and> le = gs + 1"
    by auto
  show ?thesis
  proof (cases r1)
    case (Inl e)
    have "x' = x1" using run loop Inl unfolding mkqs_partition_def Let_def a_def [symmetric]
      by simp
    then show ?thesis using len1 m1 n by auto
  next
    case (Inr v)
    obtain q w' where "v = (q, w')" by (cases v)
    moreover obtain ls le gs ge where "q = (ls, le, gs, ge)" by (cases q)
    ultimately have v: "v = ((ls, le, gs, ge), w')" by simp
    from inv1 [of ls le gs ge w'] Inr v
    have i: "mkqs_part_inv depth state (x ! nat a) (mset x) n x1 ls le gs ge" "le = gs + 1" by auto
    define d1 where "d1 = min ls (le - ls)"
    define x2 where "x2 = mkqs_vec_swap 0 (le - d1) d1 x1"
    define d2 where "d2 = min (ge - gs) (n - ge - 1)"
    have x': "x' = mkqs_vec_swap le (n - d2) d2 x2"
      using run loop Inr v unfolding mkqs_partition_def Let_def a_def [symmetric]
      by (simp add: d1_def x2_def d2_def)
    have b: "1 \<le> ls" "ls \<le> le" "gs \<le> ge" "ge \<le> n - 1" using i by (auto simp: mkqs_part_inv_def)
    have "mset x2 = mset x1" unfolding x2_def
      using b i(2) len1 by (intro mkqs_vec_swap_mset) (auto simp: d1_def)
    moreover have "mset x' = mset x2" unfolding x'
      using b i(2) len1 by (intro mkqs_vec_swap_mset) (auto simp: d2_def x2_def)
    ultimately show ?thesis using m1 len1 n by (simp add: x' x2_def)
  qed
qed

lemma mkqs_partition_layout:
  fixes state :: "('d, 'p, 'k, 'e) Tuplesortstate"
  assumes n: "n = int (length x)" "1 \<le> n"
    and run: "mkqs_partition x n depth state w = (x', Inr ((ls, le, gs, ge), w'))"
    and p: "p = x ! nat (mkqs_select_pivot x n depth state)"
  shows "1 \<le> ls \<and> ls \<le> le \<and> le = gs + 1 \<and> gs \<le> ge \<and> ge \<le> n - 1 \<and>
         (\<forall>i. int i < le - ls \<longrightarrow> mkqs_compare_datum (x' ! i) p depth state < 0) \<and>
         (\<forall>i. le - ls \<le> int i \<and> int i < n - (ge - gs) \<longrightarrow>
              x' ! i = p \<or> mkqs_compare_datum (x' ! i) p depth state = 0) \<and>
         (\<forall>i. n - (ge - gs) \<le> int i \<and> int i < n \<longrightarrow> mkqs_compare_datum (x' ! i) p depth state > 0)"
proof -
  define a where "a = mkqs_select_pivot x n depth state"
  have a: "0 \<le> a" "a < n" using mkqs_select_pivot_range [OF n(2), of x depth state] by (auto simp: a_def)
  note inv0 = mkqs_part_inv_init [OF n a, of depth state]
  obtain x1 r1 where loop: "mkqs_partition_loop depth state (mkqs_swap 0 a x) 1 1 (n - 1) (n - 1) w = (x1, r1)"
    by (metis surj_pair)
  have r1: "r1 = Inr ((ls, le, gs, ge), w')"
    using run loop unfolding mkqs_partition_def Let_def a_def [symmetric]
    by (auto split: sum.splits prod.splits)
  from mkqs_partition_loop_inv [OF inv0 loop] r1
  have len1: "int (length x1) = n"
    and i: "mkqs_part_inv depth state p (mset x) n x1 ls le gs ge" "le = gs + 1"
    by (auto simp: p a_def)
  define d1 where "d1 = min (ls - 0) (le - ls)"
  define x2 where "x2 = mkqs_vec_swap 0 (le - d1) d1 x1"
  define d2 where "d2 = min (ge + 1 - le) (n - (ge + 1))"
  have x': "x' = mkqs_vec_swap le (n - d2) d2 x2"
    using run loop r1 i(2) unfolding mkqs_partition_def Let_def a_def [symmetric]
    by (simp add: d1_def x2_def d2_def algebra_simps)
  have b: "1 \<le> ls" "ls \<le> le" "gs \<le> ge" "ge \<le> n - 1" using i by (auto simp: mkqs_part_inv_def)
  let ?c = "\<lambda>t. mkqs_compare_datum t p depth state"
  let ?E = "\<lambda>t. t = p \<or> ?c t = 0" and ?L = "\<lambda>t. ?c t < 0" and ?G = "\<lambda>t. ?c t > 0"
  have E1: "\<forall>i. 0 \<le> int i \<and> int i < ls \<longrightarrow> ?E (x1 ! i)"
  proof (intro allI impI)
    fix i assume "0 \<le> int i \<and> int i < ls"
    then show "?E (x1 ! i)" using i(1) by (cases "i = 0") (auto simp: mkqs_part_inv_def)
  qed
  have L1: "\<forall>i. ls \<le> int i \<and> int i < le \<longrightarrow> ?L (x1 ! i)"
    using i(1) by (auto simp: mkqs_part_inv_def)
  have G1: "\<forall>i. le \<le> int i \<and> int i < ge + 1 \<longrightarrow> ?G (x1 ! i)"
    using i by (auto simp: mkqs_part_inv_def)
  have E1': "\<forall>i. ge + 1 \<le> int i \<and> int i < n \<longrightarrow> ?E (x1 ! i)"
    using i by (auto simp: mkqs_part_inv_def)
  have f1: "(\<forall>i. 0 \<le> int i \<and> int i < 0 + (le - ls) \<longrightarrow> ?L (x2 ! i)) \<and>
         (\<forall>i. 0 + (le - ls) \<le> int i \<and> int i < le \<longrightarrow> ?E (x2 ! i)) \<and>
         (\<forall>i. i < length x1 \<and> \<not> (0 \<le> int i \<and> int i < le) \<longrightarrow> x2 ! i = x1 ! i)"
    by (rule mkqs_fold_block [where A = ?E and B = ?L, OF _ _ _ _ E1 L1 d1_def x2_def])
       (use b i len1 in auto)
  have len2: "int (length x2) = n" using len1 by (simp add: x2_def)
  have G2: "\<forall>i. le \<le> int i \<and> int i < ge + 1 \<longrightarrow> ?G (x2 ! i)"
    using G1 f1 len1 b by auto
  have E2': "\<forall>i. ge + 1 \<le> int i \<and> int i < n \<longrightarrow> ?E (x2 ! i)"
    using E1' f1 len1 b i(2) by auto
  have f2: "(\<forall>i. le \<le> int i \<and> int i < le + (n - (ge + 1)) \<longrightarrow> ?E (x' ! i)) \<and>
         (\<forall>i. le + (n - (ge + 1)) \<le> int i \<and> int i < n \<longrightarrow> ?G (x' ! i)) \<and>
         (\<forall>i. i < length x2 \<and> \<not> (le \<le> int i \<and> int i < n) \<longrightarrow> x' ! i = x2 ! i)"
    by (rule mkqs_fold_block [where A = ?G and B = ?E, OF _ _ _ _ G2 E2' d2_def x'])
       (use b i len2 in auto)
  have L: "\<forall>i. int i < le - ls \<longrightarrow> ?L (x' ! i)"
  proof (intro allI impI)
    fix i assume h: "int i < le - ls"
    then have "x' ! i = x2 ! i" using f2 len2 b i(2) by auto
    then show "?L (x' ! i)" using f1 h by auto
  qed
  have E: "\<forall>i. le - ls \<le> int i \<and> int i < n - (ge - gs) \<longrightarrow> ?E (x' ! i)"
  proof (intro allI impI)
    fix i assume h: "le - ls \<le> int i \<and> int i < n - (ge - gs)"
    show "?E (x' ! i)"
    proof (cases "int i < le")
      case True
      then have "x' ! i = x2 ! i" using f2 len2 b h by auto
      then show ?thesis using f1 h True by auto
    next
      case False
      then show ?thesis using f2 h i(2) by auto
    qed
  qed
  have G: "\<forall>i. n - (ge - gs) \<le> int i \<and> int i < n \<longrightarrow> ?G (x' ! i)"
    using f2 i(2) by auto
  from L E G b i(2) show ?thesis by blast
qed

subsection \<open>The recursive driver\<close>

text \<open>
  The sub-array \<^verbatim>\<open>x + a\<close> of \<^verbatim>\<open>k\<close> tuples that a call receives, and the array after that call
  has rewritten the sub-array in place.
\<close>

definition mkqs_slice :: "'a list \<Rightarrow> int \<Rightarrow> int \<Rightarrow> 'a list" where
  "mkqs_slice x a k = take (nat k) (drop (nat a) x)"

definition mkqs_store :: "'a list \<Rightarrow> int \<Rightarrow> 'a list \<Rightarrow> 'a list" where
  "mkqs_store x a ys = take (nat a) x @ ys @ drop (nat a + length ys) x"

text \<open>
  The branch taken at the last key: the duplicate handler is called when it is set and the
  equal part holds more than one tuple. The call is recorded with the slice and the null
  flag it received.
\<close>

definition mkqs_handle_dup ::
  "('d, 'p) SortTuple list \<Rightarrow> int \<Rightarrow> bool \<Rightarrow> ('d, 'p, 'k, 'e) Tuplesortstate \<Rightarrow> nat option \<Rightarrow>
   ('d, 'p) SortTuple list \<times> (('d, 'p) SortTuple list \<times> bool) list \<times> ('e mkqs_error + nat option)" where
  "mkqs_handle_dup x tupCount seenNull state w =
     (case mkqsHandleDupFunc state of
        Some f \<Rightarrow>
          if tupCount > 1
          then (case f x seenNull of
                  (x', None) \<Rightarrow> (x', [(x, seenNull)], Inr w)
                | (x', Some e) \<Rightarrow> (x', [(x, seenNull)], Inl (DupHandlerError e)))
          else (x, [], Inr w)
      | None \<Rightarrow> (x, [], Inr w))"

lemma mkqs_slice_length: "length (mkqs_slice x a k) \<le> nat k"
  by (simp add: mkqs_slice_def)

lemma mkqs_partition_sizes:
  fixes state :: "('d, 'p, 'k, 'e) Tuplesortstate"
  assumes "n = int (length x)" "1 \<le> n"
    and "mkqs_partition x n depth state w = (x', Inr ((ls, le, gs, ge), w'))"
  shows "nat (le - ls) < length x \<and> nat (ge - gs) < length x"
  using mkqs_partition_layout [OF assms refl] assms(1) by auto

lemma mkqs_partition_slice_less:
  fixes state :: "('d, 'p, 'k, 'e) Tuplesortstate"
  assumes "(x1, Inr ((ls, le, gs, ge), w')) = mkqs_partition x (int (length x)) depth state w"
    and "\<not> length x \<le> Suc 0"
  shows "length (mkqs_slice y a (le - ls)) < length x"
    and "length (mkqs_slice y b (ge - gs)) < length x"
proof -
  have "nat (le - ls) < length x \<and> nat (ge - gs) < length x"
    using assms by (intro mkqs_partition_sizes [OF refl _ assms(1) [symmetric]]) auto
  then show "length (mkqs_slice y a (le - ls)) < length x"
    and "length (mkqs_slice y b (ge - gs)) < length x"
    using mkqs_slice_length [of y a "le - ls"] mkqs_slice_length [of y b "ge - gs"] by auto
qed

text \<open>
  \<^verbatim>\<open>mk_qsort_tuple(x, n, depth, state, seenNull)\<close> with \<open>n = length x\<close>. The result is the
  array as the call leaves it, the calls of the duplicate handler in the order they were
  made, and either the error that unwound the sort or the state of the interrupt probe.
\<close>

function mk_qsort_tuple ::
  "('d, 'p) SortTuple list \<Rightarrow> nat \<Rightarrow> ('d, 'p, 'k, 'e) Tuplesortstate \<Rightarrow> bool \<Rightarrow> nat option \<Rightarrow>
   ('d, 'p) SortTuple list \<times> (('d, 'p) SortTuple list \<times> bool) list \<times> ('e mkqs_error + nat option)" where
  "mk_qsort_tuple x depth state seenNull w =
     (let n = int (length x)
      in if n \<le> 1 then (x, [], Inr w)
         else if depth = nKeys state then (x, [], Inr w)
         else (case CHECK_FOR_INTERRUPTS w of
                 Inl e \<Rightarrow> (x, [], Inl e)
               | Inr w0 \<Rightarrow>
         (case mkqs_pre_ordered_check x n depth state w0 of
            Inl e \<Rightarrow> (x, [], Inl e)
          | Inr (ordered, w1) \<Rightarrow>
         if ordered then (x, [], Inr w1)
         else if n < 16 \<and> mkqsHandleDupFunc state = None
         then (mkqs_bubble_outer x n depth state 0, [], Inr w1)
         else (case mkqs_partition x n depth state w1 of
                 (x1, Inl e) \<Rightarrow> (x1, [], Inl e)
               | (x1, Inr ((lessStart, lessEnd, greaterStart, greaterEnd), w2)) \<Rightarrow>
         (let dist = lessEnd - lessStart
          in case mk_qsort_tuple (mkqs_slice x1 0 dist) depth state seenNull w2 of
               (lessPart, calls1, Inl e) \<Rightarrow> (mkqs_store x1 0 lessPart, calls1, Inl e)
             | (lessPart, calls1, Inr w3) \<Rightarrow>
         (let x2 = mkqs_store x1 0 lessPart;
              isDatumNull = check_datum_null (x2 ! nat dist) depth state;
              tupCount = lessStart + n - greaterEnd - 1
          in case (if depth + 1 < nKeys state
                   then mk_qsort_tuple (mkqs_slice x2 dist tupCount) (depth + 1) state
                          (seenNull \<or> isDatumNull) w3
                   else mkqs_handle_dup (mkqs_slice x2 dist tupCount) tupCount
                          (seenNull \<or> isDatumNull) state w3) of
               (equalPart, calls2, Inl e) \<Rightarrow> (mkqs_store x2 dist equalPart, calls1 @ calls2, Inl e)
             | (equalPart, calls2, Inr w4) \<Rightarrow>
         (let x3 = mkqs_store x2 dist equalPart;
              dist' = greaterEnd - greaterStart
          in case mk_qsort_tuple (mkqs_slice x3 (n - dist') dist') depth state seenNull w4 of
               (greaterPart, calls3, r) \<Rightarrow>
                 (mkqs_store x3 (n - dist') greaterPart, calls1 @ calls2 @ calls3, r))))))))"
  by pat_completeness auto
termination
  by (relation "measures [\<lambda>(x, depth, state, seenNull, w). nKeys state - depth,
                           \<lambda>(x, depth, state, seenNull, w). length x]")
    (auto dest: mkqs_partition_slice_less)

declare mk_qsort_tuple.simps [simp del]

subsection \<open>An example configuration\<close>

text \<open>
  Two integer keys, ascending, nulls last, no abbreviation. The payload of a tuple is its
  row, a list of optional integers; the comparator primitives compare two
  \<open>(datum, isNull)\<close> pairs.
\<close>

definition ex_compare :: "int \<Rightarrow> bool \<Rightarrow> int \<Rightarrow> bool \<Rightarrow> 'k \<Rightarrow> int" where
  "ex_compare d1 n1 d2 n2 k =
     (if n1 then (if n2 then 0 else 1)
      else if n2 then - 1
      else if d1 < d2 then - 1 else if d1 = d2 then 0 else 1)"

definition ex_datum :: "(int, int option list) SortTuple \<Rightarrow> nat \<Rightarrow> int \<times> bool" where
  "ex_datum t d = (case tuple t ! d of None \<Rightarrow> (0, True) | Some v \<Rightarrow> (v, False))"

definition ex_get_datum ::
  "(int, int option list) SortTuple \<Rightarrow> (int, int option list) SortTuple option \<Rightarrow> nat \<Rightarrow>
   (int \<times> bool) \<times> (int \<times> bool)" where
  "ex_get_datum t1 t2 d = (ex_datum t1 d, case t2 of None \<Rightarrow> (0, False) | Some t \<Rightarrow> ex_datum t d)"

definition ex_compare_tuple ::
  "(int, int option list) SortTuple \<Rightarrow> (int, int option list) SortTuple \<Rightarrow> int" where
  "ex_compare_tuple a b =
     (let c = ex_compare (datum1 a) (isnull1 a) (datum1 b) (isnull1 b) ()
      in if c \<noteq> 0 then c
         else ex_compare (fst (ex_datum a 1)) (snd (ex_datum a 1))
                (fst (ex_datum b 1)) (snd (ex_datum b 1)) ())"

definition ex_state ::
  "MkqsCompFuncType \<Rightarrow>
   ((int, int option list) SortTuple list \<Rightarrow> bool \<Rightarrow> (int, int option list) SortTuple list \<times> unit option) option \<Rightarrow>
   (int, int option list, unit, unit) Tuplesortstate" where
  "ex_state kind h =
     \<lparr> nKeys = 2,
       sortKeys = [\<lparr>abbrev_converter = False\<rparr>, \<lparr>abbrev_converter = False\<rparr>],
       mkqsCompFuncType = kind,
       mkqsGetDatumFunc = ex_get_datum,
       mkqsHandleDupFunc = h,
       ApplySortComparator = ex_compare,
       ApplyUnsignedSortComparator = ex_compare,
       ApplySignedSortComparator = ex_compare,
       ApplyInt32SortComparator = ex_compare,
       ApplySortAbbrevFullComparator = ex_compare,
       qsort_tuple_unsigned_compare = ex_compare_tuple,
       qsort_tuple_signed_compare = ex_compare_tuple,
       qsort_tuple_int32_compare = ex_compare_tuple \<rparr>"

text \<open>The tuple of a row: the leading key is stored in \<open>datum1\<close> and \<open>isnull1\<close>.\<close>

definition ex_tuple :: "int option list \<Rightarrow> (int, int option list) SortTuple" where
  "ex_tuple r = \<lparr> tuple = r, datum1 = (case hd r of None \<Rightarrow> 0 | Some v \<Rightarrow> v), isnull1 = (hd r = None) \<rparr>"

lemma ex_compare_datum:
  "mkqs_compare_datum a b d (ex_state kind h) =
     (if d = 0 then ex_compare (datum1 a) (isnull1 a) (datum1 b) (isnull1 b) ()
      else ex_compare (fst (ex_datum a d)) (snd (ex_datum a d)) (fst (ex_datum b d)) (snd (ex_datum b d)) ())"
  by (cases kind)
     (simp_all add: mkqs_compare_datum_def mkqs_compare_datum_by_shortcut_def
      mkqs_compare_datum_tiebreak_def ex_state_def ex_get_datum_def ex_compare_def Let_def
      split: prod.splits)

text \<open>
  The range comparator in the words of the specification: the first non-zero result of
  the per-depth comparator at the depths \<open>depth, depth + 1, ..., nKeys - 1\<close>, and 0 when
  there is none.
\<close>

definition first_nonzero :: "int list \<Rightarrow> int" where
  "first_nonzero rs = (case filter (\<lambda>r. r \<noteq> 0) rs of [] \<Rightarrow> 0 | r # _ \<Rightarrow> r)"

definition compare_range_spec ::
  "('d, 'p) SortTuple \<Rightarrow> ('d, 'p) SortTuple \<Rightarrow> nat \<Rightarrow> ('d, 'p, 'k, 'e) Tuplesortstate \<Rightarrow> int" where
  "compare_range_spec t1 t2 depth state =
     first_nonzero (map (\<lambda>d. mkqs_compare_datum t1 t2 d state) [depth ..< nKeys state])"

subsection \<open>The range comparator\<close>

lemma first_nonzero_Cons: "first_nonzero (r # rs) = (if r \<noteq> 0 then r else first_nonzero rs)"
  by (simp add: first_nonzero_def)

lemma first_nonzero_Nil: "first_nonzero [] = 0"
  by (simp add: first_nonzero_def)

lemma compare_range_spec_unfold:
  "compare_range_spec t1 t2 depth state =
     (if depth < nKeys state
      then (if mkqs_compare_datum t1 t2 depth state \<noteq> 0 then mkqs_compare_datum t1 t2 depth state
            else compare_range_spec t1 t2 (Suc depth) state)
      else 0)"
  by (simp add: compare_range_spec_def upt_rec [of depth] first_nonzero_Cons first_nonzero_Nil)

lemma range_tiebreak_loop_spec:
  "0 < depth \<Longrightarrow>
   mkqs_range_tiebreak_loop t1 t2 depth state = compare_range_spec t1 t2 depth state"
proof (induction t1 t2 depth state rule: mkqs_range_tiebreak_loop.induct)
  case (1 t1 t2 depth state)
  show ?case
  proof (cases "depth < nKeys state")
    case False
    then show ?thesis
      by (simp add: mkqs_range_tiebreak_loop.simps [of t1 t2 depth]
          compare_range_spec_unfold [of t1 t2 depth])
  next
    case True
    obtain d1 n1 d2 n2 where g: "mkqsGetDatumFunc state t1 (Some t2) depth = ((d1, n1), (d2, n2))"
      by (metis surj_pair)
    have cd: "mkqs_compare_datum t1 t2 depth state =
        ApplySortComparator state d1 n1 d2 n2 (sortKeys state ! depth)"
      using "1.prems" by (simp add: mkqs_compare_datum_def mkqs_compare_datum_tiebreak_def g)
    show ?thesis
    proof (cases "ApplySortComparator state d1 n1 d2 n2 (sortKeys state ! depth) = 0")
      case False
      with True cd show ?thesis
        by (simp add: mkqs_range_tiebreak_loop.simps [of t1 t2 depth]
            compare_range_spec_unfold [of t1 t2 depth] g)
    next
      case z: True
      have "mkqs_range_tiebreak_loop t1 t2 (depth + 1) state =
          compare_range_spec t1 t2 (depth + 1) state"
        using "1.IH" [OF True g [symmetric] refl refl refl] z by simp
      with True cd z show ?thesis
        by (simp add: mkqs_range_tiebreak_loop.simps [of t1 t2 depth]
            compare_range_spec_unfold [of t1 t2 depth] g)
    qed
  qed
qed

lemma compare_tuple_by_range_spec:
  assumes "depth < nKeys state"
  shows "mkqs_compare_tuple_by_range t1 t2 depth state = compare_range_spec t1 t2 depth state"
proof (cases "depth = 0")
  case False
  then show ?thesis
    by (simp add: mkqs_compare_tuple_by_range_def mkqs_compare_tuple_by_range_tiebreak_def
        range_tiebreak_loop_spec)
next
  case True
  have loop: "mkqs_range_tiebreak_loop t1 t2 (Suc 0) state = compare_range_spec t1 t2 (Suc 0) state"
    by (simp add: range_tiebreak_loop_spec)
  obtain d1 n1 d2 n2 where g: "mkqsGetDatumFunc state t1 (Some t2) 0 = ((d1, n1), (d2, n2))"
    by (metis surj_pair)
  show ?thesis
    using assms True
    by (simp add: mkqs_compare_tuple_by_range_def mkqs_compare_tuple_by_range_tiebreak_def
        compare_range_spec_unfold [of t1 t2 0] mkqs_compare_datum_def
        mkqs_compare_datum_tiebreak_def loop g Let_def)
qed

text \<open>
  The median of three array cells in the words of the specification: \<open>m\<close> is one of the
  three indices, and the cells at the other two compare below or equal and above or equal
  to it at this depth.
\<close>

definition mkqs_between ::
  "('d, 'p) SortTuple list \<Rightarrow> nat \<Rightarrow> ('d, 'p, 'k, 'e) Tuplesortstate \<Rightarrow> int \<Rightarrow> int \<Rightarrow> int \<Rightarrow> bool" where
  "mkqs_between x depth state lo m hi \<longleftrightarrow>
     mkqs_compare_datum (x ! nat lo) (x ! nat m) depth state \<le> 0 \<and>
     mkqs_compare_datum (x ! nat m) (x ! nat hi) depth state \<le> 0"

definition mkqs_is_median ::
  "('d, 'p) SortTuple list \<Rightarrow> nat \<Rightarrow> ('d, 'p, 'k, 'e) Tuplesortstate \<Rightarrow> int \<Rightarrow> int \<Rightarrow> int \<Rightarrow> int \<Rightarrow> bool" where
  "mkqs_is_median x depth state m a b c \<longleftrightarrow>
     m = a \<and> (mkqs_between x depth state b a c \<or> mkqs_between x depth state c a b) \<or>
     m = b \<and> (mkqs_between x depth state a b c \<or> mkqs_between x depth state c b a) \<or>
     m = c \<and> (mkqs_between x depth state a c b \<or> mkqs_between x depth state b c a)"

lemma get_median_from_three_is_median:
  assumes "\<forall>t u. (mkqs_compare_datum t u depth state < 0) = (mkqs_compare_datum u t depth state > 0)"
  shows "mkqs_is_median x depth state (get_median_from_three a b c x depth state) a b c"
proof -
  have flip: "mkqs_compare_datum u t depth state \<le> 0" if "\<not> mkqs_compare_datum t u depth state < 0" for t u
    using assms that by (metis not_less)
  have flip': "mkqs_compare_datum u t depth state \<le> 0" if "mkqs_compare_datum t u depth state > 0" for t u
    using assms that by (metis less_imp_le)
  show ?thesis
    unfolding get_median_from_three_def mkqs_is_median_def mkqs_between_def
    by (auto dest: flip flip')
qed

text \<open>
  C7. The range comparator is the lexicographic composition of the per-depth comparator:
  from any depth below the key count it returns the first non-zero result of
  \<open>mkqs_compare_datum\<close> at the depths from there to the last key, and 0 when all are zero.
  At depth 0 it runs the shortcut comparison first, then (when the leading key is
  abbreviated) the abbreviated-full comparator, and only then goes down to depth 1.
\<close>

theorem range_comparator_lexicographic:
  assumes "depth < nKeys state"
  shows "mkqs_compare_tuple_by_range t1 t2 depth state = compare_range_spec t1 t2 depth state \<and>
         (depth = 0 \<longrightarrow>
          mkqs_compare_tuple_by_range t1 t2 depth state =
           (let shortcut = mkqs_compare_datum_by_shortcut t1 t2 state;
                ((d1, n1), (d2, n2)) = mkqsGetDatumFunc state t1 (Some t2) 0;
                full = (if abbrev_converter (sortKeys state ! 0)
                        then ApplySortAbbrevFullComparator state d1 n1 d2 n2 (sortKeys state ! 0)
                        else 0)
            in if shortcut \<noteq> 0 then shortcut
               else if full \<noteq> 0 then full
               else compare_range_spec t1 t2 1 state))"
proof (intro conjI impI)
  show "mkqs_compare_tuple_by_range t1 t2 depth state = compare_range_spec t1 t2 depth state"
    using assms by (rule compare_tuple_by_range_spec)
  assume "depth = 0"
  then show "mkqs_compare_tuple_by_range t1 t2 depth state =
           (let shortcut = mkqs_compare_datum_by_shortcut t1 t2 state;
                ((d1, n1), (d2, n2)) = mkqsGetDatumFunc state t1 (Some t2) 0;
                full = (if abbrev_converter (sortKeys state ! 0)
                        then ApplySortAbbrevFullComparator state d1 n1 d2 n2 (sortKeys state ! 0)
                        else 0)
            in if shortcut \<noteq> 0 then shortcut
               else if full \<noteq> 0 then full
               else compare_range_spec t1 t2 1 state)"
    by (simp add: mkqs_compare_tuple_by_range_def mkqs_compare_tuple_by_range_tiebreak_def
        range_tiebreak_loop_spec Let_def split: prod.splits)
qed

theorem range_comparator_lexicographic_witness:
  "0 < nKeys (ex_state MKQS_COMP_FUNC_INT32 None) \<and>
   mkqs_compare_tuple_by_range (ex_tuple [Some 1, Some 2]) (ex_tuple [Some 1, Some 3]) 0
     (ex_state MKQS_COMP_FUNC_INT32 None) = - 1 \<and>
   compare_range_spec (ex_tuple [Some 1, Some 2]) (ex_tuple [Some 1, Some 3]) 0
     (ex_state MKQS_COMP_FUNC_INT32 None) = - 1"
proof -
  have k: "0 < nKeys (ex_state MKQS_COMP_FUNC_INT32 None)" by (simp add: ex_state_def)
  have "mkqs_compare_tuple_by_range (ex_tuple [Some 1, Some 2]) (ex_tuple [Some 1, Some 3]) 0
     (ex_state MKQS_COMP_FUNC_INT32 None) = - 1" by code_simp
  then show ?thesis
    using k range_comparator_lexicographic [OF k, of "ex_tuple [Some 1, Some 2]" "ex_tuple [Some 1, Some 3]"]
    by simp
qed

lemma ex_compare_datum_antisym:
  "(mkqs_compare_datum t u d (ex_state kind h) < 0) = (mkqs_compare_datum u t d (ex_state kind h) > 0)"
  by (simp add: ex_compare_datum ex_compare_def)

text \<open>
  C9. Pivot selection follows three regimes: the middle index \<open>n div 2\<close> up to length 7,
  the median of the cells 0, \<open>n div 2\<close> and \<open>n - 1\<close> up to length 40, and above that, with
  step \<open>n div 8\<close>, the median of the medians of three triples taken at the left end,
  around the middle and at the right end; every comparison is \<open>mkqs_compare_datum\<close> at
  the current depth.
\<close>

theorem pivot_selection_regimes:
  assumes "\<forall>t u. (mkqs_compare_datum t u depth state < 0) = (mkqs_compare_datum u t depth state > 0)"
  shows "(n \<le> 7 \<longrightarrow> mkqs_select_pivot x n depth state = n div 2) \<and>
         (7 < n \<and> n \<le> 40 \<longrightarrow>
            mkqs_select_pivot x n depth state = get_median_from_three 0 (n div 2) (n - 1) x depth state \<and>
            mkqs_is_median x depth state (mkqs_select_pivot x n depth state) 0 (n div 2) (n - 1)) \<and>
         (40 < n \<longrightarrow>
            (\<exists>l m r.
               l = get_median_from_three 0 (n div 8) (2 * (n div 8)) x depth state \<and>
               m = get_median_from_three (n div 2 - n div 8) (n div 2) (n div 2 + n div 8) x depth state \<and>
               r = get_median_from_three (n - 1 - 2 * (n div 8)) (n - 1 - n div 8) (n - 1) x depth state \<and>
               mkqs_select_pivot x n depth state = get_median_from_three l m r x depth state \<and>
               mkqs_is_median x depth state l 0 (n div 8) (2 * (n div 8)) \<and>
               mkqs_is_median x depth state m (n div 2 - n div 8) (n div 2) (n div 2 + n div 8) \<and>
               mkqs_is_median x depth state r (n - 1 - 2 * (n div 8)) (n - 1 - n div 8) (n - 1) \<and>
               mkqs_is_median x depth state (mkqs_select_pivot x n depth state) l m r))"
proof (intro conjI impI)
  show "mkqs_select_pivot x n depth state = n div 2" if "n \<le> 7"
    using that by (simp add: mkqs_select_pivot_def)
next
  assume h: "7 < n \<and> n \<le> 40"
  then show eq: "mkqs_select_pivot x n depth state =
      get_median_from_three 0 (n div 2) (n - 1) x depth state"
    by (simp add: mkqs_select_pivot_def Let_def)
  show "mkqs_is_median x depth state (mkqs_select_pivot x n depth state) 0 (n div 2) (n - 1)"
    unfolding eq by (rule get_median_from_three_is_median [OF assms])
next
  assume h: "40 < n"
  define l where "l = get_median_from_three 0 (n div 8) (2 * (n div 8)) x depth state"
  define m where "m = get_median_from_three (n div 2 - n div 8) (n div 2) (n div 2 + n div 8) x depth state"
  define r where "r = get_median_from_three (n - 1 - 2 * (n div 8)) (n - 1 - n div 8) (n - 1) x depth state"
  have eq: "mkqs_select_pivot x n depth state = get_median_from_three l m r x depth state"
    using h by (simp add: mkqs_select_pivot_def Let_def l_def m_def r_def)
  have "mkqs_is_median x depth state l 0 (n div 8) (2 * (n div 8))"
    "mkqs_is_median x depth state m (n div 2 - n div 8) (n div 2) (n div 2 + n div 8)"
    "mkqs_is_median x depth state r (n - 1 - 2 * (n div 8)) (n - 1 - n div 8) (n - 1)"
    "mkqs_is_median x depth state (mkqs_select_pivot x n depth state) l m r"
    unfolding eq l_def m_def r_def by (rule get_median_from_three_is_median [OF assms])+
  with eq show "\<exists>l m r.
       l = get_median_from_three 0 (n div 8) (2 * (n div 8)) x depth state \<and>
       m = get_median_from_three (n div 2 - n div 8) (n div 2) (n div 2 + n div 8) x depth state \<and>
       r = get_median_from_three (n - 1 - 2 * (n div 8)) (n - 1 - n div 8) (n - 1) x depth state \<and>
       mkqs_select_pivot x n depth state = get_median_from_three l m r x depth state \<and>
       mkqs_is_median x depth state l 0 (n div 8) (2 * (n div 8)) \<and>
       mkqs_is_median x depth state m (n div 2 - n div 8) (n div 2) (n div 2 + n div 8) \<and>
       mkqs_is_median x depth state r (n - 1 - 2 * (n div 8)) (n - 1 - n div 8) (n - 1) \<and>
       mkqs_is_median x depth state (mkqs_select_pivot x n depth state) l m r"
    unfolding l_def m_def r_def by blast
qed

definition ex_rows8 :: "int option list list" where
  "ex_rows8 = [[Some 5, Some 0], [Some 3, Some 0], [Some 8, Some 0], [Some 1, Some 0],
               [Some 9, Some 0], [Some 2, Some 0], [Some 7, Some 0], [Some 6, Some 0]]"

theorem pivot_selection_regimes_witness:
  "mkqs_select_pivot (map ex_tuple ex_rows8) 8 0 (ex_state MKQS_COMP_FUNC_GENERIC None) = 7 \<and>
   mkqs_is_median (map ex_tuple ex_rows8) 0 (ex_state MKQS_COMP_FUNC_GENERIC None) 7 0 4 7 \<and>
   mkqs_select_pivot (map ex_tuple ex_rows8) 3 0 (ex_state MKQS_COMP_FUNC_GENERIC None) = 1"
proof -
  have p: "mkqs_select_pivot (map ex_tuple ex_rows8) 8 0 (ex_state MKQS_COMP_FUNC_GENERIC None) = 7"
    by code_simp
  have a: "\<forall>t u. (mkqs_compare_datum t u 0 (ex_state MKQS_COMP_FUNC_GENERIC None) < 0) =
      (mkqs_compare_datum u t 0 (ex_state MKQS_COMP_FUNC_GENERIC None) > 0)"
    using ex_compare_datum_antisym by blast
  show ?thesis
    using pivot_selection_regimes [OF a, of 8 "map ex_tuple ex_rows8"]
      pivot_selection_regimes [OF a, of 3 "map ex_tuple ex_rows8"] p
    by simp
qed

subsection \<open>Slices\<close>

lemma mkqs_slice_nth:
  "0 \<le> a \<Longrightarrow> 0 \<le> k \<Longrightarrow> a + k \<le> int (length x) \<Longrightarrow> j < nat k \<Longrightarrow>
   mkqs_slice x a k ! j = x ! (nat a + j)"
  by (simp add: mkqs_slice_def)

lemma mkqs_slice_len:
  "0 \<le> a \<Longrightarrow> 0 \<le> k \<Longrightarrow> a + k \<le> int (length x) \<Longrightarrow> length (mkqs_slice x a k) = nat k"
  by (auto simp: mkqs_slice_def)

lemma mkqs_slice_all:
  assumes "0 \<le> a" "0 \<le> k" "a + k \<le> int (length x)"
    and "\<forall>i. a \<le> int i \<and> int i < a + k \<longrightarrow> P (x ! i)"
  shows "\<forall>t \<in> set (mkqs_slice x a k). P t"
proof
  fix t assume "t \<in> set (mkqs_slice x a k)"
  then obtain j where j: "j < length (mkqs_slice x a k)" "t = mkqs_slice x a k ! j"
    by (auto simp: in_set_conv_nth)
  then have "j < nat k" using mkqs_slice_len [OF assms(1-3)] by simp
  then have "t = x ! (nat a + j)" using j mkqs_slice_nth [OF assms(1-3)] by simp
  moreover have "a \<le> int (nat a + j) \<and> int (nat a + j) < a + k"
    using \<open>j < nat k\<close> assms(1,2) by auto
  ultimately show "P t" using assms(4) by blast
qed

lemma mkqs_three_slices:
  assumes "0 \<le> a" "0 \<le> k" "a + k \<le> n" "n = int (length x)"
  shows "x = mkqs_slice x 0 a @ mkqs_slice x a k @ mkqs_slice x (a + k) (n - (a + k))"
proof -
  have "drop (nat a) x = take (nat k) (drop (nat a) x) @ drop (nat k) (drop (nat a) x)"
    by (rule append_take_drop_id [symmetric])
  moreover have "drop (nat k) (drop (nat a) x) = drop (nat (a + k)) x"
    using assms by (simp add: nat_add_distrib add.commute)
  moreover have "take (nat (n - (a + k))) (drop (nat (a + k)) x) = drop (nat (a + k)) x"
    using assms by simp
  ultimately show ?thesis
    using append_take_drop_id [of "nat a" x] by (simp add: mkqs_slice_def)
qed

text \<open>
  C6. After the two folding block swaps the slice is \<open>less @ equals @ greater\<close>: the
  tuples of \<open>less\<close> compare below the pivot at this depth, those of \<open>equals\<close> compare equal
  to it and those of \<open>greater\<close> above it; \<open>equals\<close> begins at offset \<open>lessEnd - lessStart\<close>
  and has \<open>lessStart + (n - greaterEnd - 1)\<close> tuples.
\<close>

theorem three_way_partition_layout:
  fixes state :: "('d, 'p, 'k, 'e) Tuplesortstate"
  assumes "n = int (length x)" and "1 \<le> n"
    and "mkqs_partition x n depth state w =
           (x', Inr ((lessStart, lessEnd, greaterStart, greaterEnd), w'))"
    and "pivot = x ! nat (mkqs_select_pivot x n depth state)"
    and "mkqs_compare_datum pivot pivot depth state = 0"
    and "lessPart = mkqs_slice x' 0 (lessEnd - lessStart)"
    and "equalPart = mkqs_slice x' (lessEnd - lessStart) (lessStart + (n - greaterEnd - 1))"
    and "greaterPart = mkqs_slice x' (n - (greaterEnd - greaterStart)) (greaterEnd - greaterStart)"
  shows "x' = lessPart @ equalPart @ greaterPart \<and>
         int (length lessPart) = lessEnd - lessStart \<and>
         int (length equalPart) = lessStart + (n - greaterEnd - 1) \<and>
         int (length greaterPart) = greaterEnd - greaterStart \<and>
         (\<forall>t \<in> set lessPart. mkqs_compare_datum t pivot depth state < 0) \<and>
         (\<forall>t \<in> set equalPart. mkqs_compare_datum t pivot depth state = 0) \<and>
         (\<forall>t \<in> set greaterPart. mkqs_compare_datum t pivot depth state > 0) \<and>
         mset x' = mset x"
proof -
  note lay = mkqs_partition_layout [OF assms(1-4)]
  note perm = mkqs_partition_perm [OF assms(1-3)]
  let ?a = "lessEnd - lessStart" and ?k = "lessStart + (n - greaterEnd - 1)"
  have len: "n = int (length x')" using perm assms(1) by simp
  have b: "0 \<le> ?a" "0 \<le> ?k" "?a + ?k \<le> n" "?a + ?k = n - (greaterEnd - greaterStart)"
    "n - (?a + ?k) = greaterEnd - greaterStart" "0 \<le> greaterEnd - greaterStart"
    using lay by auto
  have split: "x' = lessPart @ equalPart @ greaterPart"
    using mkqs_three_slices [OF b(1-3) len] b(4,5) assms(6-8) by simp
  have l1: "int (length lessPart) = ?a"
    unfolding assms(6) using mkqs_slice_len [of 0 ?a x'] b len by simp
  have l2: "int (length equalPart) = ?k"
    unfolding assms(7) using mkqs_slice_len [of ?a ?k x'] b len by simp
  have l3: "int (length greaterPart) = greaterEnd - greaterStart"
    unfolding assms(8) using mkqs_slice_len [of "n - (greaterEnd - greaterStart)" "greaterEnd - greaterStart" x'] b len
    by simp
  have L: "\<forall>t \<in> set lessPart. mkqs_compare_datum t pivot depth state < 0"
    unfolding assms(6) using lay b len by (intro mkqs_slice_all) auto
  have "\<forall>t \<in> set equalPart. t = pivot \<or> mkqs_compare_datum t pivot depth state = 0"
    unfolding assms(7) using lay b len by (intro mkqs_slice_all) auto
  then have E: "\<forall>t \<in> set equalPart. mkqs_compare_datum t pivot depth state = 0"
    using assms(5) by auto
  have G: "\<forall>t \<in> set greaterPart. mkqs_compare_datum t pivot depth state > 0"
    unfolding assms(8) using lay b len by (intro mkqs_slice_all) auto
  from split l1 l2 l3 L E G perm show ?thesis by simp
qed

definition ex_rows5 :: "int option list list" where
  "ex_rows5 = [[Some 3, Some 0], [Some 1, Some 1], [Some 2, Some 2], [Some 2, Some 3], [Some 5, Some 4]]"

theorem three_way_partition_layout_witness:
  "mkqs_partition (map ex_tuple ex_rows5) 5 0 (ex_state MKQS_COMP_FUNC_GENERIC None) None =
     (map ex_tuple [[Some 1, Some 1], [Some 2, Some 2], [Some 2, Some 3], [Some 5, Some 4], [Some 3, Some 0]],
      Inr ((1, 2, 1, 3), None)) \<and>
   map ex_tuple [[Some 1, Some 1], [Some 2, Some 2], [Some 2, Some 3], [Some 5, Some 4], [Some 3, Some 0]] =
     map ex_tuple [[Some 1, Some 1]] @ map ex_tuple [[Some 2, Some 2], [Some 2, Some 3]] @
     map ex_tuple [[Some 5, Some 4], [Some 3, Some 0]] \<and>
   mkqs_compare_datum (ex_tuple [Some 1, Some 1]) (ex_tuple [Some 2, Some 2]) 0
     (ex_state MKQS_COMP_FUNC_GENERIC None) < 0 \<and>
   mkqs_compare_datum (ex_tuple [Some 2, Some 3]) (ex_tuple [Some 2, Some 2]) 0
     (ex_state MKQS_COMP_FUNC_GENERIC None) = 0 \<and>
   mkqs_compare_datum (ex_tuple [Some 3, Some 0]) (ex_tuple [Some 2, Some 2]) 0
     (ex_state MKQS_COMP_FUNC_GENERIC None) > 0"
proof -
  let ?st = "ex_state MKQS_COMP_FUNC_GENERIC None :: (int, int option list, unit, unit) Tuplesortstate"
  let ?x = "map ex_tuple ex_rows5"
  let ?x' = "map ex_tuple [[Some 1, Some 1], [Some 2, Some 2], [Some 2, Some 3], [Some 5, Some 4], [Some 3, Some 0]]"
  have run: "mkqs_partition ?x 5 0 ?st None = (?x', Inr ((1, 2, 1, 3), None))"
    by code_simp
  have n: "5 = int (length ?x)" by (simp add: ex_rows5_def)
  have piv: "?x ! nat (mkqs_select_pivot ?x 5 0 ?st) = ex_tuple [Some 2, Some 2]"
    by code_simp
  have refl: "mkqs_compare_datum (ex_tuple [Some 2, Some 2]) (ex_tuple [Some 2, Some 2]) 0 ?st = 0"
    by (simp add: ex_compare_datum ex_compare_def)
  have s1: "mkqs_slice ?x' 0 (2 - 1) = map ex_tuple [[Some 1, Some 1]]"
    and s2: "mkqs_slice ?x' (2 - 1) (1 + (5 - 3 - 1)) = map ex_tuple [[Some 2, Some 2], [Some 2, Some 3]]"
    and s3: "mkqs_slice ?x' (5 - (3 - 1)) (3 - 1) = map ex_tuple [[Some 5, Some 4], [Some 3, Some 0]]"
    by (simp_all add: mkqs_slice_def)
  from three_way_partition_layout [OF n _ run piv [symmetric] refl s1 [symmetric] s2 [symmetric] s3 [symmetric]]
  show ?thesis using run by simp
qed

lemma mkqs_partition_equal_size:
  fixes state :: "('d, 'p, 'k, 'e) Tuplesortstate"
  assumes "(x1, Inr ((ls, le, gs, ge), w')) = mkqs_partition x (int (length x)) depth state w"
    and "\<not> int (length x) \<le> 1"
  shows "length (mkqs_slice y a (ls + int (length x) - ge - 1)) \<le> length x"
proof -
  have "1 \<le> ls \<and> ls \<le> le \<and> le = gs + 1 \<and> gs \<le> ge \<and> ge \<le> int (length x) - 1"
    using mkqs_partition_layout [OF refl _ assms(1) [symmetric] refl] assms(2) by auto
  then have "nat (ls + int (length x) - ge - 1) \<le> length x" by auto
  then show ?thesis
    using mkqs_slice_length [of y a "ls + int (length x) - ge - 1"] by linarith
qed

lemma mkqs_partition_call_sizes:
  fixes state :: "('d, 'p, 'k, 'e) Tuplesortstate"
  assumes "(x1, Inr ((ls, le, gs, ge), w')) = mkqs_partition x (int (length x)) depth state w"
  shows "\<forall>y a. length x \<le> Suc 0 \<or>
         length (mkqs_slice y a (le - ls)) \<le> length x - 1 \<and>
         length (mkqs_slice y a (ls + int (length x) - ge - 1)) \<le> length x \<and>
         length (mkqs_slice y a (ge - gs)) \<le> length x - 1"
proof (cases "length x \<le> Suc 0")
  case False
  then have n: "\<not> int (length x) \<le> 1" by simp
  show ?thesis
  proof (intro allI)
    fix y :: "'a list" and a
    show "length x \<le> Suc 0 \<or>
         length (mkqs_slice y a (le - ls)) \<le> length x - 1 \<and>
         length (mkqs_slice y a (ls + int (length x) - ge - 1)) \<le> length x \<and>
         length (mkqs_slice y a (ge - gs)) \<le> length x - 1"
      using mkqs_partition_slice_less(1) [OF assms False, of y a]
        mkqs_partition_slice_less(2) [OF assms False, of y a]
        mkqs_partition_equal_size [OF assms n, of y a] by auto
  qed
qed simp

lemma mk_qsort_tuple_rel_decreases:
  fixes state :: "('d, 'p, 'k, 'e) Tuplesortstate"
  assumes "mk_qsort_tuple_rel (x', depth', state', seenNull', w') (x, depth, state, seenNull, w)"
  shows "state' = state \<and> 1 < length x \<and> depth \<noteq> nKeys state \<and>
         (depth' = depth \<and> length x' \<le> length x - 1 \<or>
          depth' = depth + 1 \<and> depth' < nKeys state \<and> length x' \<le> length x)"
  using assms
proof (cases rule: mk_qsort_tuple_rel.cases)
  case 1
  then show ?thesis
    by (auto dest!: mkqs_partition_call_sizes; blast)
next
  case 2
  then show ?thesis
    by (auto dest!: mkqs_partition_call_sizes; blast)
next
  case 3
  then show ?thesis
    by (auto dest!: mkqs_partition_call_sizes; blast)
qed


lemma mkqs_induct [case_names step]:
  fixes state :: "('d, 'p, 'k, 'e) Tuplesortstate" and P :: "'a list \<Rightarrow> nat \<Rightarrow> bool"
  assumes "\<And>x depth.
      (\<And>x' depth'. depth' = depth \<and> length x' < length x \<or>
                     depth' = depth + 1 \<and> depth' < nKeys state \<Longrightarrow> P x' depth') \<Longrightarrow> P x depth"
  shows "P x depth"
proof -
  define R where "R = measures [\<lambda>(x :: 'a list, d). nKeys state - d, \<lambda>(x, d). length x]"
  have w: "wf R" by (simp add: R_def)
  have "P (fst p) (snd p)" for p
  proof (rule wf_induct_rule [OF w, where P = "\<lambda>p. P (fst p) (snd p)"])
    fix p
    assume IH: "\<And>y. (y, p) \<in> R \<Longrightarrow> P (fst y) (snd y)"
    show "P (fst p) (snd p)"
    proof (rule assms)
      fix x' :: "'a list" and depth'
      assume "depth' = snd p \<and> length x' < length (fst p) \<or>
              depth' = snd p + 1 \<and> depth' < nKeys state"
      then have "((x', depth'), p) \<in> R"
        by (cases p) (auto simp: R_def)
      from IH [OF this] show "P x' depth'" by simp
    qed
  qed
  from this [of "(x, depth)"] show ?thesis by simp
qed

lemma mk_qsort_tuple_total:
  fixes state :: "('d, 'p, 'k, 'e) Tuplesortstate"
  shows "mk_qsort_tuple_dom (x, depth, state, seenNull, w)"
proof -
  let ?P = "\<lambda>(x :: ('d, 'p) SortTuple list) depth.
      \<forall>seenNull w. mk_qsort_tuple_dom (x, depth, state, seenNull, w)"
  have "?P x depth"
  proof (rule mkqs_induct [where state = state and P = ?P])
    fix x :: "('d, 'p) SortTuple list" and depth
    assume step: "\<And>x' depth'. depth' = depth \<and> length x' < length x \<or>
        depth' = depth + 1 \<and> depth' < nKeys state \<Longrightarrow> ?P x' depth'"
    show "?P x depth"
    proof (intro allI, rule accp.accI)
      fix seenNull w y
      assume r: "mk_qsort_tuple_rel y (x, depth, state, seenNull, w)"
      obtain x' depth' state' seenNull' w' where y: "y = (x', depth', state', seenNull', w')"
        by (cases y)
      from mk_qsort_tuple_rel_decreases [OF r [unfolded y]]
      have st: "state' = state" and
        dec: "depth' = depth \<and> length x' < length x \<or> depth' = depth + 1 \<and> depth' < nKeys state"
        by auto
      from step [OF dec] show "mk_qsort_tuple_dom y" unfolding y st by blast
    qed
  qed
  then show ?thesis by blast
qed

text \<open>A duplicate handler that leaves the slice as it is and raises nothing.\<close>

definition ex_keep ::
  "(int, int option list) SortTuple list \<Rightarrow> bool \<Rightarrow> (int, int option list) SortTuple list \<times> unit option" where
  "ex_keep x seenNull = (x, None)"

text \<open>
  C8. \<open>mk_qsort_tuple\<close> terminates on every input: the arguments of every call lie in the
  well-founded part of its call relation. A call with at most one tuple or at depth
  \<open>nKeys\<close> returns at once; every recursive call either keeps the depth and works on a
  slice at least one tuple shorter, or goes one key deeper, staying below \<open>nKeys\<close>, on a
  slice that is not longer.
\<close>

theorem mk_qsort_tuple_terminates:
  fixes state :: "('d, 'p, 'k, 'e) Tuplesortstate"
  shows "mk_qsort_tuple_dom (x, depth, state, seenNull, w) \<and>
         (length x \<le> 1 \<or> depth = nKeys state \<longrightarrow>
            mk_qsort_tuple x depth state seenNull w = (x, [], Inr w)) \<and>
         (\<forall>x' depth' state' seenNull' w'.
            mk_qsort_tuple_rel (x', depth', state', seenNull', w') (x, depth, state, seenNull, w) \<longrightarrow>
            state' = state \<and> 1 < length x \<and> depth \<noteq> nKeys state \<and>
            (depth' = depth \<and> length x' \<le> length x - 1 \<or>
             depth' = depth + 1 \<and> depth' < nKeys state \<and> length x' \<le> length x))"
proof (intro conjI allI impI)
  show "mk_qsort_tuple_dom (x, depth, state, seenNull, w)"
    by (rule mk_qsort_tuple_total)
next
  assume "length x \<le> 1 \<or> depth = nKeys state"
  then show "mk_qsort_tuple x depth state seenNull w = (x, [], Inr w)"
    by (auto simp: mk_qsort_tuple.simps [of x depth state seenNull w] Let_def)
next
  fix x' depth' state' seenNull' w'
  assume r: "mk_qsort_tuple_rel (x', depth', state', seenNull', w') (x, depth, state, seenNull, w)"
  from mk_qsort_tuple_rel_decreases [OF r]
  show "state' = state" "1 < length x" "depth \<noteq> nKeys state"
    "depth' = depth \<and> length x' \<le> length x - 1 \<or>
     depth' = depth + 1 \<and> depth' < nKeys state \<and> length x' \<le> length x"
    by blast+
qed

theorem mk_qsort_tuple_terminates_witness:
  "mk_qsort_tuple_rel
     ([], 0, ex_state MKQS_COMP_FUNC_GENERIC (Some ex_keep), False, None)
     ([ex_tuple [Some 1, Some 1], ex_tuple [Some 1, Some 1]], 0,
      ex_state MKQS_COMP_FUNC_GENERIC (Some ex_keep), False, None) \<and>
   mk_qsort_tuple_dom
     ([ex_tuple [Some 1, Some 1], ex_tuple [Some 1, Some 1]], 0,
      ex_state MKQS_COMP_FUNC_GENERIC (Some ex_keep), False, None) \<and>
   mk_qsort_tuple [] 0 (ex_state MKQS_COMP_FUNC_GENERIC (Some ex_keep)) False None = ([], [], Inr None)"
proof -
  let ?st = "ex_state MKQS_COMP_FUNC_GENERIC (Some ex_keep)"
  let ?x = "[ex_tuple [Some 1, Some 1], ex_tuple [Some 1, Some 1]]"
  have chk: "CHECK_FOR_INTERRUPTS None = (Inr None :: unit mkqs_error + nat option)"
    by (simp add: CHECK_FOR_INTERRUPTS_def)
  have pre: "mkqs_pre_ordered_check ?x 2 0 ?st None = Inr (False, None)"
    by code_simp
  have part: "mkqs_partition ?x 2 0 ?st None = (?x, Inr ((2, 2, 1, 1), None))"
    by code_simp
  have nk: "nKeys ?st = 2" and hd: "mkqsHandleDupFunc ?st = Some ex_keep"
    by (simp_all add: ex_state_def)
  have "mk_qsort_tuple_rel (mkqs_slice ?x 0 0, 0, ?st, False, None) (?x, 0, ?st, False, None)"
    by (rule mk_qsort_tuple_rel.intros(1)
        [where xa = 2 and b = None and ba = "(False, None)" and xb = False and y = None
           and xba = ?x and ya = "Inr ((2, 2, 1, 1), None)" and bb = "((2, 2, 1, 1), None)"
           and xc = "(2, 2, 1, 1)" and yb = None and xd = 2 and yc = "(2, 1, 1)"
           and xe = 2 and yd = "(1, 1)" and xf = 1 and ye = 1 and xg = 0])
       (simp_all add: chk pre part nk hd)
  then have rel: "mk_qsort_tuple_rel ([], 0, ?st, False, None) (?x, 0, ?st, False, None)"
    by (simp add: mkqs_slice_def)
  show ?thesis
    using rel mk_qsort_tuple_terminates [of ?x 0 ?st False None]
      mk_qsort_tuple_terminates [of "[]" 0 ?st False None]
    by simp
qed

subsection \<open>The small-range sort inserts by adjacent swaps\<close>

lemma mkqs_swap_adjacent:
  "mkqs_swap (int (length A) + 1) (int (length A) + 1 - 1) (A @ a # e # R) = A @ e # a # R"
proof -
  have "nat (int (length A) + 1) = Suc (length A)" by simp
  then show ?thesis
    by (simp add: mkqs_swap_def Let_def nth_append list_update_append)
qed

lemma mkqs_bubble_inner_decomp:
  "\<exists>A1 A2. A = A1 @ A2 \<and>
     mkqs_bubble_inner (A @ e # R) depth state (int (length A)) = A1 @ e # A2 @ R \<and>
     (\<forall>t \<in> set A2. mkqs_compare_tuple_by_range t e depth state > 0) \<and>
     (A1 \<noteq> [] \<longrightarrow> mkqs_compare_tuple_by_range (last A1) e depth state \<le> 0)"
proof (induction A arbitrary: R rule: rev_induct)
  case Nil
  show ?case by (simp add: mkqs_bubble_inner.simps [of "e # R" depth state 0])
next
  case (snoc a A)
  let ?x = "(A @ [a]) @ e # R"
  let ?l = "int (length (A @ [a]))"
  have l: "?l > 0" "nat (?l - 1) = length A" "nat ?l = Suc (length A)" by auto
  have nth: "?x ! nat (?l - 1) = a" "?x ! nat ?l = e"
    unfolding l by (simp_all add: nth_append)
  show ?case
  proof (cases "mkqs_compare_tuple_by_range a e depth state \<le> 0")
    case True
    then have "mkqs_bubble_inner ?x depth state ?l = (A @ [a]) @ e # [] @ R"
      using nth l(1) by (subst mkqs_bubble_inner.simps) simp
    with True show ?thesis
      by (intro exI [of _ "A @ [a]"] exI [of _ "[]"]) simp
  next
    case False
    have sw: "mkqs_swap ?l (?l - 1) ?x = A @ e # a # R"
      using mkqs_swap_adjacent [of A a e R] by (simp add: add.commute)
    have "mkqs_bubble_inner ?x depth state ?l =
        mkqs_bubble_inner (A @ e # a # R) depth state (int (length A))"
      using nth l(1) False sw by (subst mkqs_bubble_inner.simps) simp
    moreover obtain A1 A2 where "A = A1 @ A2"
      "mkqs_bubble_inner (A @ e # a # R) depth state (int (length A)) = A1 @ e # A2 @ a # R"
      "\<forall>t \<in> set A2. mkqs_compare_tuple_by_range t e depth state > 0"
      "A1 \<noteq> [] \<longrightarrow> mkqs_compare_tuple_by_range (last A1) e depth state \<le> 0"
      using snoc.IH [of "a # R"] by blast
    ultimately show ?thesis
      using False by (intro exI [of _ A1] exI [of _ "A2 @ [a]"]) auto
  qed
qed

lemma mkqs_bubble_inner_at:
  assumes "m < length x"
  shows "\<exists>A1 A2. take m x = A1 @ A2 \<and>
     mkqs_bubble_inner x depth state (int m) = A1 @ x ! m # A2 @ drop (Suc m) x \<and>
     (\<forall>t \<in> set A2. mkqs_compare_tuple_by_range t (x ! m) depth state > 0) \<and>
     (A1 \<noteq> [] \<longrightarrow> mkqs_compare_tuple_by_range (last A1) (x ! m) depth state \<le> 0)"
proof -
  have x: "x = take m x @ x ! m # drop (Suc m) x"
    using assms by (rule id_take_nth_drop)
  have len: "length (take m x) = m" using assms by simp
  show ?thesis
    using mkqs_bubble_inner_decomp [of "take m x" "x ! m" "drop (Suc m) x" depth state]
    unfolding len x [symmetric] .
qed


lemma mkqs_bubble_inner_mset:
  assumes "m < length x"
  shows "mset (mkqs_bubble_inner x depth state (int m)) = mset x"
proof -
  obtain A1 A2 where d: "take m x = A1 @ A2"
    "mkqs_bubble_inner x depth state (int m) = A1 @ x ! m # A2 @ drop (Suc m) x"
    using mkqs_bubble_inner_at [OF assms, of depth state] by blast
  have "mset x = mset (take m x @ x ! m # drop (Suc m) x)"
    using id_take_nth_drop [OF assms] by simp
  then show ?thesis using d by simp
qed

lemma mkqs_bubble_inner_length:
  assumes "m < length x"
  shows "length (mkqs_bubble_inner x depth state (int m)) = length x"
  using mkqs_bubble_inner_mset [OF assms, of depth state] by (metis size_mset)

lemma mkqs_bubble_inner_filter:
  assumes "m < length x"
    and "\<forall>u v. P u \<and> P v \<longrightarrow> mkqs_compare_tuple_by_range u v depth state \<le> 0"
  shows "filter P (mkqs_bubble_inner x depth state (int m)) = filter P x"
proof -
  obtain A1 A2 where d: "take m x = A1 @ A2"
    "mkqs_bubble_inner x depth state (int m) = A1 @ x ! m # A2 @ drop (Suc m) x"
    "\<forall>t \<in> set A2. mkqs_compare_tuple_by_range t (x ! m) depth state > 0"
    using mkqs_bubble_inner_at [OF assms(1), of depth state] by blast
  have x: "x = A1 @ A2 @ x ! m # drop (Suc m) x"
    using id_take_nth_drop [OF assms(1)] d(1) by simp
  have fx: "filter P x = filter P A1 @ filter P A2 @ filter P [x ! m] @ filter P (drop (Suc m) x)"
    by (subst x) simp
  have fr: "filter P (mkqs_bubble_inner x depth state (int m)) =
      filter P A1 @ filter P [x ! m] @ filter P A2 @ filter P (drop (Suc m) x)"
    by (subst d(2)) simp
  show ?thesis
  proof (cases "P (x ! m)")
    case True
    then have "filter P A2 = []"
      using d(3) assms(2) by (fastforce simp: filter_empty_conv)
    then show ?thesis using fx fr by simp
  next
    case False
    then show ?thesis using fx fr by simp
  qed
qed

lemma mkqs_bubble_inner_sorted:
  assumes "m < length x"
    and tr: "\<And>a b c. mkqs_compare_tuple_by_range a b depth state \<le> 0 \<Longrightarrow>
               mkqs_compare_tuple_by_range b c depth state \<le> 0 \<Longrightarrow>
               mkqs_compare_tuple_by_range a c depth state \<le> 0"
    and tot: "\<And>a b. mkqs_compare_tuple_by_range a b depth state > 0 \<Longrightarrow>
               mkqs_compare_tuple_by_range b a depth state \<le> 0"
    and s: "sorted_wrt (\<lambda>a b. mkqs_compare_tuple_by_range a b depth state \<le> 0) (take m x)"
  shows "sorted_wrt (\<lambda>a b. mkqs_compare_tuple_by_range a b depth state \<le> 0)
           (take (Suc m) (mkqs_bubble_inner x depth state (int m)))"
proof -
  let ?le = "\<lambda>a b. mkqs_compare_tuple_by_range a b depth state \<le> 0"
  obtain A1 A2 where d: "take m x = A1 @ A2"
    "mkqs_bubble_inner x depth state (int m) = A1 @ x ! m # A2 @ drop (Suc m) x"
    "\<forall>t \<in> set A2. mkqs_compare_tuple_by_range t (x ! m) depth state > 0"
    "A1 \<noteq> [] \<longrightarrow> ?le (last A1) (x ! m)"
    using mkqs_bubble_inner_at [OF assms(1), of depth state] by blast
  have "length (A1 @ A2) = m" using d(1) assms(1) by (metis length_take min.absorb2 less_imp_le)
  then have "length (A1 @ x ! m # A2) = Suc m" by simp
  moreover have "mkqs_bubble_inner x depth state (int m) = (A1 @ x ! m # A2) @ drop (Suc m) x"
    using d(2) by simp
  ultimately have tk: "take (Suc m) (mkqs_bubble_inner x depth state (int m)) = A1 @ x ! m # A2"
    by (metis append_eq_conv_conj)
  from s d(1) have sa: "sorted_wrt ?le A1" "sorted_wrt ?le A2" "\<forall>a \<in> set A1. \<forall>b \<in> set A2. ?le a b"
    by (simp_all add: sorted_wrt_append)
  have a1: "\<forall>a \<in> set A1. ?le a (x ! m)"
  proof
    fix a assume a: "a \<in> set A1"
    then have ne: "A1 \<noteq> []" by auto
    show "?le a (x ! m)"
    proof (cases "a = last A1")
      case True
      then show ?thesis using d(4) ne by simp
    next
      case False
      have "A1 = butlast A1 @ [last A1]" using ne by simp
      then have "sorted_wrt ?le (butlast A1 @ [last A1])" using sa(1) by simp
      moreover have "a \<in> set (butlast A1)" using a False ne
        by (metis append_butlast_last_id in_set_butlastD set_ConsD set_append Un_iff list.set(1) empty_iff rotate1.simps(2) set_rotate1)
      ultimately have "?le a (last A1)" by (simp add: sorted_wrt_append)
      then show ?thesis using d(4) ne tr by blast
    qed
  qed
  have a2: "\<forall>b \<in> set A2. ?le (x ! m) b" using d(3) tot by blast
  show ?thesis
    unfolding tk using sa a1 a2 by (auto simp: sorted_wrt_append)
qed

lemma mkqs_bubble_inner_drop:
  assumes "m < length x"
  shows "drop (Suc m) (mkqs_bubble_inner x depth state (int m)) = drop (Suc m) x"
proof -
  obtain A1 A2 where d: "take m x = A1 @ A2"
    "mkqs_bubble_inner x depth state (int m) = A1 @ x ! m # A2 @ drop (Suc m) x"
    using mkqs_bubble_inner_at [OF assms, of depth state] by blast
  have "length (A1 @ A2) = m" using d(1) assms(1) by (metis length_take min.absorb2 less_imp_le)
  then have "length (A1 @ x ! m # A2) = Suc m" by simp
  moreover have "mkqs_bubble_inner x depth state (int m) = (A1 @ x ! m # A2) @ drop (Suc m) x"
    using d(2) by simp
  ultimately show ?thesis by (metis append_eq_conv_conj)
qed


lemma mkqs_bubble_outer_mset:
  "n = int (length x) \<Longrightarrow> 0 \<le> m \<Longrightarrow> mset (mkqs_bubble_outer x n depth state m) = mset x"
proof (induction x n depth state m rule: mkqs_bubble_outer.induct)
  case (1 x n depth state m)
  show ?case
  proof (cases "m < n")
    case False
    then show ?thesis by (simp add: mkqs_bubble_outer.simps [of x n depth state m])
  next
    case True
    then have m: "nat m < length x" "int (nat m) = m" using "1.prems" by auto
    have "mset (mkqs_bubble_outer (mkqs_bubble_inner x depth state m) n depth state (m + 1)) =
        mset (mkqs_bubble_inner x depth state m)"
      using "1.IH" [OF True] "1.prems" mkqs_bubble_inner_length [OF m(1), of depth state] m(2)
      by simp
    then show ?thesis
      using True mkqs_bubble_inner_mset [OF m(1), of depth state] m(2)
      by (simp add: mkqs_bubble_outer.simps [of x n depth state m])
  qed
qed

lemma mkqs_bubble_outer_filter:
  assumes "\<forall>u v. P u \<and> P v \<longrightarrow> mkqs_compare_tuple_by_range u v depth state \<le> 0"
  shows "n = int (length x) \<Longrightarrow> 0 \<le> m \<Longrightarrow>
         filter P (mkqs_bubble_outer x n depth state m) = filter P x"
  using assms
proof (induction x n depth state m rule: mkqs_bubble_outer.induct)
  case (1 x n depth state m)
  show ?case
  proof (cases "m < n")
    case False
    then show ?thesis by (simp add: mkqs_bubble_outer.simps [of x n depth state m])
  next
    case True
    then have m: "nat m < length x" "int (nat m) = m" using "1.prems" by auto
    have "filter P (mkqs_bubble_outer (mkqs_bubble_inner x depth state m) n depth state (m + 1)) =
        filter P (mkqs_bubble_inner x depth state m)"
      using "1.IH" [OF True] "1.prems" mkqs_bubble_inner_length [OF m(1), of depth state] m(2)
      by simp
    then show ?thesis
      using True mkqs_bubble_inner_filter [OF m(1) "1.prems"(3)] m(2)
      by (simp add: mkqs_bubble_outer.simps [of x n depth state m])
  qed
qed

lemma mkqs_bubble_outer_sorted:
  assumes tr: "\<And>a b c. mkqs_compare_tuple_by_range a b depth state \<le> 0 \<Longrightarrow>
               mkqs_compare_tuple_by_range b c depth state \<le> 0 \<Longrightarrow>
               mkqs_compare_tuple_by_range a c depth state \<le> 0"
    and tot: "\<And>a b. mkqs_compare_tuple_by_range a b depth state > 0 \<Longrightarrow>
               mkqs_compare_tuple_by_range b a depth state \<le> 0"
  shows "n = int (length x) \<Longrightarrow> 0 \<le> m \<Longrightarrow>
         sorted_wrt (\<lambda>a b. mkqs_compare_tuple_by_range a b depth state \<le> 0) (take (nat m) x) \<Longrightarrow>
         sorted_wrt (\<lambda>a b. mkqs_compare_tuple_by_range a b depth state \<le> 0)
           (mkqs_bubble_outer x n depth state m)"
  using assms
proof (induction x n depth state m rule: mkqs_bubble_outer.induct)
  case (1 x n depth state m)
  show ?case
  proof (cases "m < n")
    case False
    then have "take (nat m) x = x" using "1.prems" by simp
    moreover have "mkqs_bubble_outer x n depth state m = x"
      using False by (simp add: mkqs_bubble_outer.simps [of x n depth state m])
    ultimately show ?thesis using "1.prems"(3) by simp
  next
    case True
    then have m: "nat m < length x" "int (nat m) = m" "nat (m + 1) = Suc (nat m)"
      using "1.prems" by auto
    have s: "sorted_wrt (\<lambda>a b. mkqs_compare_tuple_by_range a b depth state \<le> 0)
        (take (nat (m + 1)) (mkqs_bubble_inner x depth state m))"
      using mkqs_bubble_inner_sorted [OF m(1) "1.prems"(4,5)] "1.prems"(3) m(2,3)
      by simp
    have "sorted_wrt (\<lambda>a b. mkqs_compare_tuple_by_range a b depth state \<le> 0)
        (mkqs_bubble_outer (mkqs_bubble_inner x depth state m) n depth state (m + 1))"
      using "1.IH" [OF True _ _ s "1.prems"(4,5)] "1.prems"(1,2)
        mkqs_bubble_inner_length [OF m(1), of depth state] m(2)
      by simp
    then show ?thesis
      using True by (simp add: mkqs_bubble_outer.simps [of x n depth state m])
  qed
qed


text \<open>
  C10. The small-range sort is stable. It is taken when the pre-ordered check fails, the
  slice has fewer than 16 tuples and no duplicate handler is set; it exchanges two
  neighbours only when the left one compares above the right one under
  \<open>mkqs_compare_tuple_by_range\<close>. So the tuples of any class \<open>P\<close> whose members never
  compare above one another keep their order, in the small-range sort and in every call
  of \<open>mk_qsort_tuple\<close> on fewer than 16 tuples without a handler.
\<close>

theorem small_range_sort_stable:
  fixes state :: "('d, 'p, 'k, 'e) Tuplesortstate"
  assumes "length x < 16" and "mkqsHandleDupFunc state = None"
    and "\<forall>u v. P u \<and> P v \<longrightarrow> mkqs_compare_tuple_by_range u v depth state \<le> 0"
  shows "filter P (mkqs_bubble_outer x (int (length x)) depth state 0) = filter P x \<and>
         filter P (fst (mk_qsort_tuple x depth state seenNull w)) = filter P x \<and>
         (\<forall>w0 w1. 1 < length x \<and> depth \<noteq> nKeys state \<and>
             (CHECK_FOR_INTERRUPTS w :: 'e mkqs_error + nat option) = Inr w0 \<and>
             mkqs_pre_ordered_check x (int (length x)) depth state w0 = Inr (False, w1) \<longrightarrow>
             mk_qsort_tuple x depth state seenNull w =
               (mkqs_bubble_outer x (int (length x)) depth state 0, [], Inr w1))"
proof -
  have b: "filter P (mkqs_bubble_outer x (int (length x)) depth state 0) = filter P x"
    using mkqs_bubble_outer_filter [OF assms(3) refl, of 0 x] by simp
  have "fst (mk_qsort_tuple x depth state seenNull w) = x \<or>
        fst (mk_qsort_tuple x depth state seenNull w) = mkqs_bubble_outer x (int (length x)) depth state 0"
    using assms(1,2)
    by (auto simp: mk_qsort_tuple.simps [of x depth state seenNull w] Let_def
        split: sum.splits prod.splits)
  with b have q: "filter P (fst (mk_qsort_tuple x depth state seenNull w)) = filter P x"
    by auto
  have "mk_qsort_tuple x depth state seenNull w =
          (mkqs_bubble_outer x (int (length x)) depth state 0, [], Inr w1)"
    if "1 < length x \<and> depth \<noteq> nKeys state \<and>
        (CHECK_FOR_INTERRUPTS w :: 'e mkqs_error + nat option) = Inr w0 \<and>
        mkqs_pre_ordered_check x (int (length x)) depth state w0 = Inr (False, w1)" for w0 w1
    using that assms(1,2)
    by (auto simp: mk_qsort_tuple.simps [of x depth state seenNull w] Let_def)
  with b q show ?thesis by blast
qed

definition ex_a :: "(int, int option list) SortTuple" where
  "ex_a = ex_tuple [Some 2, Some 1, Some 100]"

definition ex_b :: "(int, int option list) SortTuple" where
  "ex_b = ex_tuple [Some 2, Some 1, Some 200]"

definition ex_c :: "(int, int option list) SortTuple" where
  "ex_c = ex_tuple [Some 1, Some 5, Some 0]"

theorem small_range_sort_stable_witness:
  "mk_qsort_tuple [ex_a, ex_c, ex_b] 0 (ex_state MKQS_COMP_FUNC_GENERIC None) False None =
     ([ex_c, ex_a, ex_b], [], Inr None) \<and>
   filter (\<lambda>t. t = ex_a \<or> t = ex_b)
     (fst (mk_qsort_tuple [ex_a, ex_c, ex_b] 0 (ex_state MKQS_COMP_FUNC_GENERIC None) False None)) =
     [ex_a, ex_b]"
proof -
  let ?st = "ex_state MKQS_COMP_FUNC_GENERIC None"
  have run: "mk_qsort_tuple [ex_a, ex_c, ex_b] 0 ?st False None = ([ex_c, ex_a, ex_b], [], Inr None)"
    by code_simp
  have c: "mkqs_compare_tuple_by_range ex_a ex_a 0 ?st \<le> 0"
    "mkqs_compare_tuple_by_range ex_a ex_b 0 ?st \<le> 0"
    "mkqs_compare_tuple_by_range ex_b ex_a 0 ?st \<le> 0"
    "mkqs_compare_tuple_by_range ex_b ex_b 0 ?st \<le> 0"
    by code_simp+
  have P: "\<forall>u v. (u = ex_a \<or> u = ex_b) \<and> (v = ex_a \<or> v = ex_b) \<longrightarrow>
      mkqs_compare_tuple_by_range u v 0 ?st \<le> 0"
    using c by auto
  have ne: "ex_c \<noteq> ex_a" "ex_c \<noteq> ex_b" by (simp_all add: ex_a_def ex_b_def ex_c_def ex_tuple_def)
  have h: "mkqsHandleDupFunc ?st = None" by (simp add: ex_state_def)
  have "filter (\<lambda>t. t = ex_a \<or> t = ex_b) (fst (mk_qsort_tuple [ex_a, ex_c, ex_b] 0 ?st False None)) =
      filter (\<lambda>t. t = ex_a \<or> t = ex_b) [ex_a, ex_c, ex_b]"
    using small_range_sort_stable [OF _ h P, of "[ex_a, ex_c, ex_b]" False None] by simp
  then show ?thesis using run ne by simp
qed

subsection \<open>The driver on the three parts\<close>

lemma mkqs_slice_append:
  "length A = nat a \<Longrightarrow> length B = nat k \<Longrightarrow> mkqs_slice (A @ B @ C) a k = B"
  by (simp add: mkqs_slice_def)

lemma mkqs_slice_append_first:
  "length B = nat k \<Longrightarrow> mkqs_slice (B @ C) 0 k = B"
  by (simp add: mkqs_slice_def)

lemma mkqs_store_append:
  "length A = nat a \<Longrightarrow> length B' = length B \<Longrightarrow> mkqs_store (A @ B @ C) a B' = A @ B' @ C"
  by (simp add: mkqs_store_def)

lemma mkqs_store_append_first:
  "length B' = length B \<Longrightarrow> mkqs_store (B @ C) 0 B' = B' @ C"
  by (simp add: mkqs_store_def)

text \<open>
  The call on the equal part: one key deeper, or the duplicate handler at the last key.
  The null flag is read from the first tuple of the equal part.
\<close>

definition mkqs_equal_call ::
  "('d, 'p) SortTuple list \<Rightarrow> nat \<Rightarrow> ('d, 'p, 'k, 'e) Tuplesortstate \<Rightarrow> bool \<Rightarrow> nat option \<Rightarrow>
   ('d, 'p) SortTuple list \<times> (('d, 'p) SortTuple list \<times> bool) list \<times> ('e mkqs_error + nat option)" where
  "mkqs_equal_call E depth state seenNull w =
     (if depth + 1 < nKeys state
      then mk_qsort_tuple E (depth + 1) state (seenNull \<or> check_datum_null (hd E) depth state) w
      else mkqs_handle_dup E (int (length E)) (seenNull \<or> check_datum_null (hd E) depth state) state w)"

text \<open>The three calls in sequence, on parts that do not overlap.\<close>

definition mkqs_recurse ::
  "('d, 'p) SortTuple list \<Rightarrow> ('d, 'p) SortTuple list \<Rightarrow> ('d, 'p) SortTuple list \<Rightarrow> nat \<Rightarrow>
   ('d, 'p, 'k, 'e) Tuplesortstate \<Rightarrow> bool \<Rightarrow> nat option \<Rightarrow>
   ('d, 'p) SortTuple list \<times> (('d, 'p) SortTuple list \<times> bool) list \<times> ('e mkqs_error + nat option)" where
  "mkqs_recurse L E G depth state seenNull w =
     (case mk_qsort_tuple L depth state seenNull w of
        (L', calls1, Inl e) \<Rightarrow> (L' @ E @ G, calls1, Inl e)
      | (L', calls1, Inr w3) \<Rightarrow>
          (case mkqs_equal_call E depth state seenNull w3 of
             (E', calls2, Inl e) \<Rightarrow> (L' @ E' @ G, calls1 @ calls2, Inl e)
           | (E', calls2, Inr w4) \<Rightarrow>
               (case mk_qsort_tuple G depth state seenNull w4 of
                  (G', calls3, r) \<Rightarrow> (L' @ E' @ G', calls1 @ calls2 @ calls3, r))))"

lemma mkqs_partition_parts:
  fixes state :: "('d, 'p, 'k, 'e) Tuplesortstate"
  assumes "n = int (length x)" and "1 \<le> n"
    and "mkqs_partition x n depth state w = (x1, Inr ((ls, le, gs, ge), w'))"
    and "L = mkqs_slice x1 0 (le - ls)"
    and "E = mkqs_slice x1 (le - ls) (ls + n - ge - 1)"
    and "G = mkqs_slice x1 (n - (ge - gs)) (ge - gs)"
  shows "x1 = L @ E @ G" and "length L = nat (le - ls)" and "length E = nat (ls + n - ge - 1)"
    and "length G = nat (ge - gs)" and "E \<noteq> []" and "length L < length x" and "length G < length x"
    and "mset x1 = mset x" and "n - (ge - gs) = (le - ls) + (ls + n - ge - 1)"
    and "0 \<le> le - ls" and "0 \<le> ge - gs" and "0 \<le> ls + n - ge - 1"
proof -
  note lay = mkqs_partition_layout [OF assms(1-3) refl]
  note perm = mkqs_partition_perm [OF assms(1-3)]
  let ?a = "le - ls" and ?k = "ls + n - ge - 1"
  have len: "n = int (length x1)" using perm assms(1) by simp
  have b: "0 \<le> ?a" "0 \<le> ?k" "?a + ?k \<le> n" "?a + ?k = n - (ge - gs)"
    "n - (?a + ?k) = ge - gs" "0 \<le> ge - gs" "1 \<le> ?k" "?a < n" "ge - gs < n"
    using lay by auto
  show "x1 = L @ E @ G"
    using mkqs_three_slices [OF b(1-3) len] b(4,5) assms(4-6) by simp
  show "length L = nat ?a" unfolding assms(4) using mkqs_slice_len [of 0 ?a x1] b len by simp
  show lE: "length E = nat ?k" unfolding assms(5) using mkqs_slice_len [of ?a ?k x1] b len by simp
  show "length G = nat (ge - gs)"
    unfolding assms(6) using mkqs_slice_len [of "n - (ge - gs)" "ge - gs" x1] b len by simp
  show "E \<noteq> []" using lE b(7) by auto
  show "length L < length x" using \<open>length L = nat ?a\<close> b(1,8) assms(1) by auto
  show "length G < length x" using \<open>length G = nat (ge - gs)\<close> b(6,9) assms(1) by auto
  show "mset x1 = mset x" using perm by simp
  show "n - (ge - gs) = (le - ls) + (ls + n - ge - 1)" using b(4) by simp
  show "0 \<le> le - ls" "0 \<le> ge - gs" "0 \<le> ls + n - ge - 1" using b by auto
qed

lemma mk_qsort_tuple_part_eq:
  fixes state :: "('d, 'p, 'k, 'e) Tuplesortstate"
  assumes x: "1 < length x" "depth \<noteq> nKeys state"
    and chk: "(CHECK_FOR_INTERRUPTS w :: 'e mkqs_error + nat option) = Inr w0"
    and pre: "mkqs_pre_ordered_check x (int (length x)) depth state w0 = Inr (False, w1)"
    and big: "\<not> (length x < 16 \<and> mkqsHandleDupFunc state = None)"
    and part: "mkqs_partition x (int (length x)) depth state w1 = (x1, Inr ((ls, le, gs, ge), w2))"
    and L: "L = mkqs_slice x1 0 (le - ls)"
    and E: "E = mkqs_slice x1 (le - ls) (ls + int (length x) - ge - 1)"
    and G: "G = mkqs_slice x1 (int (length x) - (ge - gs)) (ge - gs)"
    and lenL: "\<And>sn w. length (fst (mk_qsort_tuple L depth state sn w)) = length L"
    and lenE: "\<And>sn w. length (fst (mkqs_equal_call E depth state sn w)) = length E"
    and lenG: "\<And>sn w. length (fst (mk_qsort_tuple G depth state sn w)) = length G"
  shows "mk_qsort_tuple x depth state seenNull w = mkqs_recurse L E G depth state seenNull w2"
proof -
  have n1: "1 \<le> int (length x)" using x(1) by simp
  note p = mkqs_partition_parts [OF refl n1 part L E G]
  obtain L' c1 r1 where c1: "mk_qsort_tuple L depth state seenNull w2 = (L', c1, r1)"
    by (metis prod_cases3)
  have lL': "length L' = length L" using lenL [of seenNull w2] c1 by simp
  have st1: "mkqs_store x1 0 L' = L' @ E @ G"
    using mkqs_store_append_first [OF lL', of "E @ G"] p(1) by simp
  have unfold: "mk_qsort_tuple x depth state seenNull w =
     (case mk_qsort_tuple L depth state seenNull w2 of
               (lessPart, calls1, Inl e) \<Rightarrow> (mkqs_store x1 0 lessPart, calls1, Inl e)
             | (lessPart, calls1, Inr w3) \<Rightarrow>
         (let x2 = mkqs_store x1 0 lessPart;
              isDatumNull = check_datum_null (x2 ! nat (le - ls)) depth state;
              tupCount = ls + int (length x) - ge - 1
          in case (if depth + 1 < nKeys state
                   then mk_qsort_tuple (mkqs_slice x2 (le - ls) tupCount) (depth + 1) state
                          (seenNull \<or> isDatumNull) w3
                   else mkqs_handle_dup (mkqs_slice x2 (le - ls) tupCount) tupCount
                          (seenNull \<or> isDatumNull) state w3) of
               (equalPart, calls2, Inl e) \<Rightarrow> (mkqs_store x2 (le - ls) equalPart, calls1 @ calls2, Inl e)
             | (equalPart, calls2, Inr w4) \<Rightarrow>
         (let x3 = mkqs_store x2 (le - ls) equalPart;
              dist' = ge - gs
          in case mk_qsort_tuple (mkqs_slice x3 (int (length x) - dist') dist') depth state seenNull w4 of
               (greaterPart, calls3, r) \<Rightarrow>
                 (mkqs_store x3 (int (length x) - dist') greaterPart, calls1 @ calls2 @ calls3, r))))"
    using x chk pre big part L
    by (subst mk_qsort_tuple.simps) (auto simp: Let_def)
  show ?thesis
  proof (cases r1)
    case (Inl e)
    then show ?thesis using unfold c1 st1 by (simp add: mkqs_recurse_def)
  next
    case (Inr w3)
    let ?x2 = "L' @ E @ G"
    have nth: "?x2 ! nat (le - ls) = hd E"
      using p(2,5) lL' by (simp add: nth_append hd_conv_nth)
    have sl2: "mkqs_slice ?x2 (le - ls) (ls + int (length x) - ge - 1) = E"
      using mkqs_slice_append [of L' "le - ls" E "ls + int (length x) - ge - 1" G] p(2,3) lL' by simp
    have tc: "ls + int (length x) - ge - 1 = int (length E)" using p(3,12) by simp
    obtain E' c2 r2 where c2: "mkqs_equal_call E depth state seenNull w3 = (E', c2, r2)"
      by (metis prod_cases3)
    have lE': "length E' = length E" using lenE [of seenNull w3] c2 by simp
    have c2': "(if depth + 1 < nKeys state
                   then mk_qsort_tuple E (depth + 1) state
                          (seenNull \<or> check_datum_null (hd E) depth state) w3
                   else mkqs_handle_dup E (ls + int (length x) - ge - 1)
                          (seenNull \<or> check_datum_null (hd E) depth state) state w3) = (E', c2, r2)"
      using c2 tc by (auto simp: mkqs_equal_call_def split: if_splits)
    have st2: "mkqs_store ?x2 (le - ls) E' = L' @ E' @ G"
      using mkqs_store_append [of L' "le - ls" E' E G] p(2) lL' lE' by simp
    have sl3: "mkqs_slice (L' @ E' @ G) (int (length x) - (ge - gs)) (ge - gs) = G"
    proof -
      have "length (L' @ E') = nat (int (length x) - (ge - gs))"
        using p(2,3,9,10,12) lL' lE' by (simp add: nat_add_distrib)
      then show ?thesis
        using mkqs_slice_append [of "L' @ E'" "int (length x) - (ge - gs)" G "ge - gs" "[]"] p(4)
        by simp
    qed
    show ?thesis
    proof (cases r2)
      case e: (Inl e)
      have "mk_qsort_tuple x depth state seenNull w = (L' @ E' @ G, c1 @ c2, Inl e)"
        by (simp only: unfold c1 Inr e prod.case sum.case Let_def st1 nth sl2 c2' [unfolded e] st2)
      moreover have "mkqs_recurse L E G depth state seenNull w2 = (L' @ E' @ G, c1 @ c2, Inl e)"
        by (simp only: mkqs_recurse_def c1 Inr prod.case sum.case c2 e)
      ultimately show ?thesis by simp
    next
      case r: (Inr w4)
      obtain G' c3 r3 where c3: "mk_qsort_tuple G depth state seenNull w4 = (G', c3, r3)"
        by (metis prod_cases3)
      have lG': "length G' = length G" using lenG [of seenNull w4] c3 by simp
      have st3: "mkqs_store (L' @ E' @ G) (int (length x) - (ge - gs)) G' = L' @ E' @ G'"
      proof -
        have "length (L' @ E') = nat (int (length x) - (ge - gs))"
          using p(2,3,9,10,12) lL' lE' by (simp add: nat_add_distrib)
        then show ?thesis
          using mkqs_store_append [of "L' @ E'" "int (length x) - (ge - gs)" G' G "[]"] lG'
          by simp
      qed
      have "mk_qsort_tuple x depth state seenNull w = (L' @ E' @ G', c1 @ c2 @ c3, r3)"
        by (simp only: unfold c1 Inr r prod.case sum.case Let_def st1 nth sl2 c2' [unfolded r] st2
            sl3 c3 st3)
      moreover have "mkqs_recurse L E G depth state seenNull w2 = (L' @ E' @ G', c1 @ c2 @ c3, r3)"
        by (simp only: mkqs_recurse_def c1 Inr prod.case sum.case c2 r c3)
      ultimately show ?thesis by simp
    qed
  qed
qed

lemma mk_qsort_tuple_cases [consumes 0, case_names base cancel ordered small part_cancel part]:
  fixes state :: "('d, 'p, 'k, 'e) Tuplesortstate"
  obtains
    (base) "length x \<le> 1 \<or> depth = nKeys state"
      "mk_qsort_tuple x depth state seenNull w = (x, [], Inr w)"
  | (cancel) e where "1 < length x" "depth \<noteq> nKeys state"
      "mk_qsort_tuple x depth state seenNull w = (x, [], Inl e)"
  | (ordered) w0 w1 where "1 < length x" "depth \<noteq> nKeys state"
      "(CHECK_FOR_INTERRUPTS w :: 'e mkqs_error + nat option) = Inr w0"
      "mkqs_pre_ordered_check x (int (length x)) depth state w0 = Inr (True, w1)"
      "mk_qsort_tuple x depth state seenNull w = (x, [], Inr w1)"
  | (small) w0 w1 where "1 < length x" "depth \<noteq> nKeys state"
      "(CHECK_FOR_INTERRUPTS w :: 'e mkqs_error + nat option) = Inr w0"
      "mkqs_pre_ordered_check x (int (length x)) depth state w0 = Inr (False, w1)"
      "length x < 16" "mkqsHandleDupFunc state = None"
      "mk_qsort_tuple x depth state seenNull w =
         (mkqs_bubble_outer x (int (length x)) depth state 0, [], Inr w1)"
  | (part_cancel) w0 w1 x1 e where "1 < length x" "depth \<noteq> nKeys state"
      "(CHECK_FOR_INTERRUPTS w :: 'e mkqs_error + nat option) = Inr w0"
      "mkqs_pre_ordered_check x (int (length x)) depth state w0 = Inr (False, w1)"
      "\<not> (length x < 16 \<and> mkqsHandleDupFunc state = None)"
      "mkqs_partition x (int (length x)) depth state w1 = (x1, Inl e)"
      "mk_qsort_tuple x depth state seenNull w = (x1, [], Inl e)"
  | (part) w0 w1 x1 ls le gs ge w2 where "1 < length x" "depth \<noteq> nKeys state"
      "(CHECK_FOR_INTERRUPTS w :: 'e mkqs_error + nat option) = Inr w0"
      "mkqs_pre_ordered_check x (int (length x)) depth state w0 = Inr (False, w1)"
      "\<not> (length x < 16 \<and> mkqsHandleDupFunc state = None)"
      "mkqs_partition x (int (length x)) depth state w1 = (x1, Inr ((ls, le, gs, ge), w2))"
proof (cases "length x \<le> 1 \<or> depth = nKeys state")
  case True
  then show ?thesis
    by (intro base) (auto simp: mk_qsort_tuple.simps [of x depth state seenNull w] Let_def)
next
  case False
  then have x: "1 < length x" "depth \<noteq> nKeys state" by auto
  show ?thesis
  proof (cases "CHECK_FOR_INTERRUPTS w :: 'e mkqs_error + nat option")
    case (Inl e)
    with x have "mk_qsort_tuple x depth state seenNull w = (x, [], Inl e)"
      by (auto simp: mk_qsort_tuple.simps [of x depth state seenNull w] Let_def)
    then show ?thesis by (rule cancel [OF x])
  next
    case chk: (Inr w0)
    show ?thesis
    proof (cases "mkqs_pre_ordered_check x (int (length x)) depth state w0")
      case (Inl e)
      with x chk have "mk_qsort_tuple x depth state seenNull w = (x, [], Inl e)"
        by (auto simp: mk_qsort_tuple.simps [of x depth state seenNull w] Let_def)
      then show ?thesis by (rule cancel [OF x])
    next
      case (Inr v)
      obtain ordered w1 where v: "v = (ordered, w1)" by (cases v)
      show ?thesis
      proof (cases ordered)
        case True
        with x chk Inr v have "mk_qsort_tuple x depth state seenNull w = (x, [], Inr w1)"
          by (auto simp: mk_qsort_tuple.simps [of x depth state seenNull w] Let_def)
        then show ?thesis using True Inr v by (intro ordered [OF x chk]) auto
      next
        case no: False
        show ?thesis
        proof (cases "length x < 16 \<and> mkqsHandleDupFunc state = None")
          case True
          with x chk Inr v no have "mk_qsort_tuple x depth state seenNull w =
              (mkqs_bubble_outer x (int (length x)) depth state 0, [], Inr w1)"
            by (auto simp: mk_qsort_tuple.simps [of x depth state seenNull w] Let_def)
          then show ?thesis using True no Inr v by (intro small [OF x chk]) auto
        next
          case big: False
          obtain x1 r where pt: "mkqs_partition x (int (length x)) depth state w1 = (x1, r)"
            by (cases "mkqs_partition x (int (length x)) depth state w1")
          show ?thesis
          proof (cases r)
            case (Inl e)
            with x chk Inr v no big pt have "mk_qsort_tuple x depth state seenNull w = (x1, [], Inl e)"
              by (auto simp: mk_qsort_tuple.simps [of x depth state seenNull w] Let_def)
            then show ?thesis using no big pt Inl Inr v by (intro part_cancel [OF x chk]) auto
          next
            case r: (Inr q)
            obtain i w2 where "q = (i, w2)" by (cases q)
            moreover obtain ls le gs ge where "i = (ls, le, gs, ge)" by (cases i)
            ultimately show ?thesis
              using Inr v no big pt r by (intro part [OF x chk]) auto
          qed
        qed
      qed
    qed
  qed
qed

text \<open>The contract of the duplicate handler: it only reorders the slice it is given.\<close>

definition mkqs_handler_permutes :: "('d, 'p, 'k, 'e) Tuplesortstate \<Rightarrow> bool" where
  "mkqs_handler_permutes state \<longleftrightarrow>
     (\<forall>f xs b. mkqsHandleDupFunc state = Some f \<longrightarrow> mset (fst (f xs b)) = mset xs)"

lemma mkqs_handle_dup_mset:
  assumes "mkqs_handler_permutes state"
  shows "mset (fst (mkqs_handle_dup x k seenNull state w)) = mset x"
proof (cases "mkqsHandleDupFunc state")
  case None
  then show ?thesis by (simp add: mkqs_handle_dup_def)
next
  case (Some f)
  obtain x' r where f: "f x seenNull = (x', r)" by (cases "f x seenNull")
  have "mset (fst (f x seenNull)) = mset x"
    using assms Some by (simp add: mkqs_handler_permutes_def)
  then have "mset x' = mset x" using f by simp
  then show ?thesis
    using Some f by (cases r) (simp_all add: mkqs_handle_dup_def)
qed

lemma mkqs_recurse_mset:
  fixes state :: "('d, 'p, 'k, 'e) Tuplesortstate"
  assumes iL: "\<And>sn w. mset (fst (mk_qsort_tuple L depth state sn w)) = mset L"
    and iE: "\<And>sn w. mset (fst (mkqs_equal_call E depth state sn w)) = mset E"
    and iG: "\<And>sn w. mset (fst (mk_qsort_tuple G depth state sn w)) = mset G"
  shows "mset (fst (mkqs_recurse L E G depth state seenNull w)) = mset L + mset E + mset G"
proof -
  obtain L' c1 r1 where c1: "mk_qsort_tuple L depth state seenNull w = (L', c1, r1)"
    by (metis prod_cases3)
  have mL: "mset L' = mset L" using iL [of seenNull w] c1 by simp
  show ?thesis
  proof (cases r1)
    case (Inl e)
    then show ?thesis using c1 mL by (simp add: mkqs_recurse_def)
  next
    case (Inr w3)
    obtain E' c2 r2 where c2: "mkqs_equal_call E depth state seenNull w3 = (E', c2, r2)"
      by (metis prod_cases3)
    have mE: "mset E' = mset E" using iE [of seenNull w3] c2 by simp
    show ?thesis
    proof (cases r2)
      case e: (Inl e)
      then show ?thesis using c1 Inr c2 mL mE by (simp add: mkqs_recurse_def)
    next
      case r: (Inr w4)
      obtain G' c3 r3 where c3: "mk_qsort_tuple G depth state seenNull w4 = (G', c3, r3)"
        by (metis prod_cases3)
      have mG: "mset G' = mset G" using iG [of seenNull w4] c3 by simp
      show ?thesis using c1 Inr c2 r c3 mL mE mG by (simp add: mkqs_recurse_def)
    qed
  qed
qed

lemma mk_qsort_tuple_mset:
  fixes state :: "('d, 'p, 'k, 'e) Tuplesortstate"
  assumes h: "mkqs_handler_permutes state"
  shows "mset (fst (mk_qsort_tuple x depth state seenNull w)) = mset x"
proof -
  have "\<forall>seenNull w. mset (fst (mk_qsort_tuple x depth state seenNull w)) = mset x"
  proof (rule mkqs_induct [where state = state and
        P = "\<lambda>x depth. \<forall>seenNull w. mset (fst (mk_qsort_tuple x depth state seenNull w)) = mset x"])
    fix x :: "('d, 'p) SortTuple list" and depth
    assume step: "\<And>x' depth'. depth' = depth \<and> length x' < length x \<or>
        depth' = depth + 1 \<and> depth' < nKeys state \<Longrightarrow>
        \<forall>seenNull w. mset (fst (mk_qsort_tuple x' depth' state seenNull w)) = mset x'"
    show "\<forall>seenNull w. mset (fst (mk_qsort_tuple x depth state seenNull w)) = mset x"
    proof (intro allI)
      fix seenNull w
      show "mset (fst (mk_qsort_tuple x depth state seenNull w)) = mset x"
      proof (cases rule: mk_qsort_tuple_cases
          [where x = x and depth = depth and state = state and seenNull = seenNull and w = w])
        case (small w0 w1)
        then show ?thesis using mkqs_bubble_outer_mset [OF refl, of 0 x depth state] by simp
      next
        case (part_cancel w0 w1 x1 e)
        then show ?thesis
          using mkqs_partition_perm [OF refl _ part_cancel(6)] by simp
      next
        case (part w0 w1 x1 ls le gs ge w2)
        define L where "L = mkqs_slice x1 0 (le - ls)"
        define E where "E = mkqs_slice x1 (le - ls) (ls + int (length x) - ge - 1)"
        define G where "G = mkqs_slice x1 (int (length x) - (ge - gs)) (ge - gs)"
        have n1: "1 \<le> int (length x)" using part(1) by simp
        note p = mkqs_partition_parts [OF refl n1 part(6) L_def E_def G_def]
        have iL: "mset (fst (mk_qsort_tuple L depth state sn w')) = mset L" for sn w'
          using step [of depth L] p(6) by simp
        have iG: "mset (fst (mk_qsort_tuple G depth state sn w')) = mset G" for sn w'
          using step [of depth G] p(7) by simp
        have iE: "mset (fst (mkqs_equal_call E depth state sn w')) = mset E" for sn w'
        proof (cases "depth + 1 < nKeys state")
          case True
          then show ?thesis using step [of "depth + 1" E] by (simp add: mkqs_equal_call_def)
        next
          case False
          then show ?thesis using mkqs_handle_dup_mset [OF h] by (simp add: mkqs_equal_call_def)
        qed
        have lL: "length (fst (mk_qsort_tuple L depth state sn w')) = length L" for sn w'
          using iL [of sn w'] by (rule mset_eq_length)
        have lE: "length (fst (mkqs_equal_call E depth state sn w')) = length E" for sn w'
          using iE [of sn w'] by (rule mset_eq_length)
        have lG: "length (fst (mk_qsort_tuple G depth state sn w')) = length G" for sn w'
          using iG [of sn w'] by (rule mset_eq_length)
        have eq: "mk_qsort_tuple x depth state seenNull w = mkqs_recurse L E G depth state seenNull w2"
          by (rule mk_qsort_tuple_part_eq [OF part L_def E_def G_def lL lE lG])
        have "mset (fst (mkqs_recurse L E G depth state seenNull w2)) = mset L + mset E + mset G"
          by (rule mkqs_recurse_mset [OF iL iE iG])
        moreover have "mset x = mset L + mset E + mset G"
          using p(8) by (subst (asm) p(1)) (simp add: add.assoc)
        ultimately show ?thesis using eq by simp
      qed simp_all
    qed
  qed
  then show ?thesis by blast
qed

text \<open>
  C2. The sort only permutes. For every interrupt schedule and every outcome, completed
  or unwound by a cancellation or by an error of the duplicate handler, the array the
  call leaves holds the tuples of the input, each as often as before; a probe that raises
  shows the array as it is at that point of the call. The handler is held to its
  contract: it only reorders the slice it is given. A swap and a block swap inside the
  array keep the tuples too.
\<close>

theorem mk_qsort_tuple_permutes:
  fixes state :: "('d, 'p, 'k, 'e) Tuplesortstate"
  assumes "mkqs_handler_permutes state"
  shows "(\<forall>x' calls r. mk_qsort_tuple x depth state seenNull w = (x', calls, r) \<longrightarrow>
            mset x' = mset x \<and> length x' = length x) \<and>
         (0 \<le> a \<and> a < int (length x) \<and> 0 \<le> b \<and> b < int (length x) \<longrightarrow>
            mset (mkqs_swap a b x) = mset x) \<and>
         (0 \<le> a \<and> a + k \<le> int (length x) \<and> 0 \<le> b \<and> b + k \<le> int (length x) \<longrightarrow>
            mset (mkqs_vec_swap a b k x) = mset x)"
proof (intro conjI allI impI)
  fix x' calls r
  assume "mk_qsort_tuple x depth state seenNull w = (x', calls, r)"
  then have m: "mset x' = mset x"
    using mk_qsort_tuple_mset [OF assms, of x depth seenNull w] by simp
  show "mset x' = mset x" by (rule m)
  show "length x' = length x" using m by (rule mset_eq_length)
next
  assume "0 \<le> a \<and> a < int (length x) \<and> 0 \<le> b \<and> b < int (length x)"
  then show "mset (mkqs_swap a b x) = mset x" by (simp add: mkqs_swap_mset)
next
  assume "0 \<le> a \<and> a + k \<le> int (length x) \<and> 0 \<le> b \<and> b + k \<le> int (length x)"
  then show "mset (mkqs_vec_swap a b k x) = mset x" by (simp add: mkqs_vec_swap_mset)
qed

theorem mk_qsort_tuple_permutes_witness:
  "mkqs_handler_permutes (ex_state MKQS_COMP_FUNC_GENERIC (Some ex_keep)) \<and>
   mk_qsort_tuple (map ex_tuple ex_rows5) 0 (ex_state MKQS_COMP_FUNC_GENERIC (Some ex_keep)) False (Some 3) =
     (map ex_tuple [[Some 1, Some 1], [Some 2, Some 2], [Some 2, Some 3], [Some 5, Some 4], [Some 3, Some 0]],
      [], Inl QueryCanceled) \<and>
   mset (map ex_tuple [[Some 1, Some 1], [Some 2, Some 2], [Some 2, Some 3], [Some 5, Some 4], [Some 3, Some 0]]) =
     mset (map ex_tuple ex_rows5)"
proof -
  let ?st = "ex_state MKQS_COMP_FUNC_GENERIC (Some ex_keep)"
  have h: "mkqs_handler_permutes ?st"
    by (simp add: mkqs_handler_permutes_def ex_state_def ex_keep_def)
  have run: "mk_qsort_tuple (map ex_tuple ex_rows5) 0 ?st False (Some 3) =
     (map ex_tuple [[Some 1, Some 1], [Some 2, Some 2], [Some 2, Some 3], [Some 5, Some 4], [Some 3, Some 0]],
      [], Inl QueryCanceled)"
    by code_simp
  note t = mk_qsort_tuple_permutes [OF h, of "map ex_tuple ex_rows5" 0 False "Some 3" 0 0 0]
  from t have "\<forall>x' calls r. mk_qsort_tuple (map ex_tuple ex_rows5) 0 ?st False (Some 3) = (x', calls, r) \<longrightarrow>
            mset x' = mset (map ex_tuple ex_rows5) \<and> length x' = length (map ex_tuple ex_rows5)"
    by (rule conjunct1)
  from this [rule_format, OF run] h run show ?thesis by (intro conjI) (rule h, rule run, erule conjunct1)
qed

subsection \<open>Comparators that are total preorders\<close>

text \<open>
  A three-way comparator that behaves as one: a tuple compares equal to itself, swapping
  the arguments swaps the sign, and "below or equal" is transitive.
\<close>

definition mkqs_preorder :: "('a \<Rightarrow> 'a \<Rightarrow> int) \<Rightarrow> bool" where
  "mkqs_preorder c \<longleftrightarrow>
     (\<forall>a. c a a = 0) \<and> (\<forall>a b. (c a b < 0) = (c b a > 0)) \<and>
     (\<forall>a b d. c a b \<le> 0 \<and> c b d \<le> 0 \<longrightarrow> c a d \<le> 0)"

text \<open>The per-depth comparator of a state is a total preorder at every key.\<close>

definition mkqs_comparator_ok :: "('d, 'p, 'k, 'e) Tuplesortstate \<Rightarrow> bool" where
  "mkqs_comparator_ok state \<longleftrightarrow>
     (\<forall>d < nKeys state. mkqs_preorder (\<lambda>a b. mkqs_compare_datum a b d state))"

lemma mkqs_preorder_flip: "mkqs_preorder c \<Longrightarrow> (c a b \<le> 0) = (c b a \<ge> 0)"
  unfolding mkqs_preorder_def by (metis linorder_not_less)

lemma mkqs_preorder_sym: "mkqs_preorder c \<Longrightarrow> c a b = 0 \<Longrightarrow> c b a = 0"
  using mkqs_preorder_flip [of c a b] mkqs_preorder_flip [of c b a] by auto

lemma mkqs_preorder_trans: "mkqs_preorder c \<Longrightarrow> c a b \<le> 0 \<Longrightarrow> c b d \<le> 0 \<Longrightarrow> c a d \<le> 0"
  unfolding mkqs_preorder_def by blast

lemma mkqs_preorder_lt_le:
  assumes "mkqs_preorder c" "c a b < 0" "c b d \<le> 0"
  shows "c a d < 0"
proof (rule ccontr)
  assume "\<not> c a d < 0"
  then have "c d a \<le> 0" using mkqs_preorder_flip [OF assms(1), of d a] by simp
  with assms(3) have "c b a \<le> 0" using mkqs_preorder_trans [OF assms(1)] by blast
  then have "c a b \<ge> 0" using mkqs_preorder_flip [OF assms(1), of b a] by simp
  with assms(2) show False by simp
qed

lemma mkqs_preorder_le_lt:
  assumes "mkqs_preorder c" "c a b \<le> 0" "c b d < 0"
  shows "c a d < 0"
proof (rule ccontr)
  assume "\<not> c a d < 0"
  then have "c d a \<le> 0" using mkqs_preorder_flip [OF assms(1), of d a] by simp
  with assms(2) have "c d b \<le> 0" using mkqs_preorder_trans [OF assms(1)] by blast
  then have "c b d \<ge> 0" using mkqs_preorder_flip [OF assms(1), of d b] by simp
  with assms(3) show False by simp
qed

lemma mkqs_preorder_eq_trans:
  assumes "mkqs_preorder c" "c a b = 0" "c b d = 0"
  shows "c a d = 0"
proof -
  have "c a d \<le> 0" using mkqs_preorder_trans [OF assms(1), of a b d] assms by simp
  moreover have "c d a \<le> 0"
    using mkqs_preorder_trans [OF assms(1), of d b a] mkqs_preorder_sym [OF assms(1)] assms by simp
  ultimately show ?thesis using mkqs_preorder_flip [OF assms(1), of d a] by simp
qed

text \<open>The lexicographic composition of the per-depth comparators is a total preorder.\<close>

lemma compare_range_spec_cases:
  assumes "depth < nKeys state"
  shows "compare_range_spec a b depth state =
     (if mkqs_compare_datum a b depth state \<noteq> 0 then mkqs_compare_datum a b depth state
      else compare_range_spec a b (Suc depth) state)"
  using assms by (subst compare_range_spec_unfold) simp

lemma compare_range_spec_end: "nKeys state \<le> depth \<Longrightarrow> compare_range_spec a b depth state = 0"
  by (subst compare_range_spec_unfold) simp

lemma compare_range_spec_flip:
  assumes "mkqs_comparator_ok state"
  shows "(compare_range_spec a b depth state < 0) = (compare_range_spec b a depth state > 0)"
proof (induction "nKeys state - depth" arbitrary: depth)
  case 0
  then show ?case by (simp add: compare_range_spec_end)
next
  case (Suc k)
  then have d: "depth < nKeys state" and k: "k = nKeys state - Suc depth" by auto
  have po: "mkqs_preorder (\<lambda>a b. mkqs_compare_datum a b depth state)"
    using assms d by (simp add: mkqs_comparator_ok_def)
  show ?case
  proof (cases "mkqs_compare_datum a b depth state = 0")
    case True
    then have "mkqs_compare_datum b a depth state = 0" using mkqs_preorder_sym [OF po] by simp
    with True Suc.hyps(1) [OF k] d show ?thesis by (simp add: compare_range_spec_cases)
  next
    case False
    then have "mkqs_compare_datum b a depth state \<noteq> 0" using mkqs_preorder_sym [OF po] by auto
    with False po d show ?thesis
      by (simp add: compare_range_spec_cases mkqs_preorder_def)
  qed
qed

lemma compare_range_spec_trans:
  assumes "mkqs_comparator_ok state"
  shows "compare_range_spec a b depth state \<le> 0 \<Longrightarrow> compare_range_spec b c depth state \<le> 0 \<Longrightarrow>
         compare_range_spec a c depth state \<le> 0"
proof (induction "nKeys state - depth" arbitrary: depth)
  case 0
  then show ?case by (simp add: compare_range_spec_end)
next
  case (Suc k)
  then have d: "depth < nKeys state" and k: "k = nKeys state - Suc depth" by auto
  have po: "mkqs_preorder (\<lambda>a b. mkqs_compare_datum a b depth state)"
    using assms d by (simp add: mkqs_comparator_ok_def)
  let ?c = "\<lambda>a b. mkqs_compare_datum a b depth state"
  from Suc.prems have ab: "?c a b < 0 \<or> ?c a b = 0 \<and> compare_range_spec a b (Suc depth) state \<le> 0"
    and bc: "?c b c < 0 \<or> ?c b c = 0 \<and> compare_range_spec b c (Suc depth) state \<le> 0"
    using d by (auto simp: compare_range_spec_cases split: if_splits)
  consider "?c a b < 0" "?c b c \<le> 0" | "?c a b = 0" "?c b c < 0"
    | "?c a b = 0" "?c b c = 0" "compare_range_spec a b (Suc depth) state \<le> 0"
      "compare_range_spec b c (Suc depth) state \<le> 0"
    using ab bc by force
  then show ?case
  proof cases
    case 1
    then have "?c a c < 0" using mkqs_preorder_lt_le [OF po] by blast
    then show ?thesis using d by (simp add: compare_range_spec_cases)
  next
    case 2
    then have "?c a c < 0" using mkqs_preorder_le_lt [OF po, of a b c] by simp
    then show ?thesis using d by (simp add: compare_range_spec_cases)
  next
    case 3
    then have "?c a c = 0" using mkqs_preorder_eq_trans [OF po] by blast
    moreover have "compare_range_spec a c (Suc depth) state \<le> 0"
      using Suc.hyps(1) [OF k 3(3,4)] .
    ultimately show ?thesis using d by (simp add: compare_range_spec_cases)
  qed
qed

subsection \<open>What the pre-ordered check establishes\<close>

lemma mkqs_pre_ordered_loop_True:
  fixes state :: "('d, 'p, 'k, 'e) Tuplesortstate"
  shows "mkqs_pre_ordered_loop x n state i w = Inr (True, w') \<Longrightarrow> 0 \<le> i \<Longrightarrow>
   \<forall>j. i \<le> int j \<and> int j < n - 1 \<longrightarrow> mkqs_compare_tuple (x ! j) (x ! Suc j) state \<le> 0"
proof (induction x n state i w rule: mkqs_pre_ordered_loop.induct)
  case (1 x n state i w)
  show ?case
  proof (cases "i < n - 1")
    case False
    then show ?thesis by auto
  next
    case True
    obtain w1 where chk: "(CHECK_FOR_INTERRUPTS w :: 'e mkqs_error + nat option) = Inr w1"
      using "1.prems"(1) True
      by (cases "CHECK_FOR_INTERRUPTS w :: 'e mkqs_error + nat option")
         (auto simp: mkqs_pre_ordered_loop.simps [of x n state i w])
    have le: "\<not> mkqs_compare_tuple (x ! nat i) (x ! nat (i + 1)) state > 0"
      and rec: "mkqs_pre_ordered_loop x n state (i + 1) w1 = Inr (True, w')"
      using "1.prems"(1) True chk
      by (auto simp: mkqs_pre_ordered_loop.simps [of x n state i w] split: if_splits)
    have IH: "\<forall>j. i + 1 \<le> int j \<and> int j < n - 1 \<longrightarrow>
        mkqs_compare_tuple (x ! j) (x ! Suc j) state \<le> 0"
      using "1.IH" [OF True chk le rec] "1.prems"(2) by simp
    show ?thesis
    proof (intro allI impI)
      fix j assume j: "i \<le> int j \<and> int j < n - 1"
      show "mkqs_compare_tuple (x ! j) (x ! Suc j) state \<le> 0"
      proof (cases "int j = i")
        case True
        then have "nat i = j" "nat (i + 1) = Suc j" by auto
        with le show ?thesis by simp
      next
        case False
        with j IH show ?thesis by auto
      qed
    qed
  qed
qed

lemma mkqs_strict_ordered_loop_True:
  fixes state :: "('d, 'p, 'k, 'e) Tuplesortstate"
  shows "mkqs_strict_ordered_loop x n depth state i w = Inr (True, w') \<Longrightarrow> 0 \<le> i \<Longrightarrow>
   \<forall>j. i \<le> int j \<and> int j < n - 1 \<longrightarrow> mkqs_compare_datum (x ! j) (x ! Suc j) depth state < 0"
proof (induction x n depth state i w rule: mkqs_strict_ordered_loop.induct)
  case (1 x n depth state i w)
  show ?case
  proof (cases "i < n - 1")
    case False
    then show ?thesis by auto
  next
    case True
    obtain w1 where chk: "(CHECK_FOR_INTERRUPTS w :: 'e mkqs_error + nat option) = Inr w1"
      using "1.prems"(1) True
      by (cases "CHECK_FOR_INTERRUPTS w :: 'e mkqs_error + nat option")
         (auto simp: mkqs_strict_ordered_loop.simps [of x n depth state i w])
    have le: "\<not> mkqs_compare_datum (x ! nat i) (x ! nat (i + 1)) depth state \<ge> 0"
      and rec: "mkqs_strict_ordered_loop x n depth state (i + 1) w1 = Inr (True, w')"
      using "1.prems"(1) True chk
      by (auto simp: mkqs_strict_ordered_loop.simps [of x n depth state i w] split: if_splits)
    have IH: "\<forall>j. i + 1 \<le> int j \<and> int j < n - 1 \<longrightarrow>
        mkqs_compare_datum (x ! j) (x ! Suc j) depth state < 0"
      using "1.IH" [OF True chk le rec] "1.prems"(2) by simp
    show ?thesis
    proof (intro allI impI)
      fix j assume j: "i \<le> int j \<and> int j < n - 1"
      show "mkqs_compare_datum (x ! j) (x ! Suc j) depth state < 0"
      proof (cases "int j = i")
        case True
        then have "nat i = j" "nat (i + 1) = Suc j" by auto
        with le show ?thesis by simp
      next
        case False
        with j IH show ?thesis by auto
      qed
    qed
  qed
qed

text \<open>
  The whole-tuple comparator of the specialised kinds is defined outside this file; it is
  expected to order two tuples as the range comparator from depth 0 does.
\<close>

definition mkqs_tuple_compare_ok :: "('d, 'p, 'k, 'e) Tuplesortstate \<Rightarrow> bool" where
  "mkqs_tuple_compare_ok state \<longleftrightarrow>
     (mkqsCompFuncType state \<noteq> MKQS_COMP_FUNC_GENERIC \<longrightarrow>
      (\<forall>a b. (mkqs_compare_tuple a b state > 0) = (mkqs_compare_tuple_by_range a b 0 state > 0)))"

lemma sorted_wrt_adjacent:
  assumes tr: "\<And>a b c. P a b \<Longrightarrow> P b c \<Longrightarrow> P a c"
    and adj: "\<forall>j. Suc j < length x \<longrightarrow> P (x ! j) (x ! Suc j)"
  shows "sorted_wrt P x"
proof -
  have "transp P" using tr by (auto simp: transp_def)
  then show ?thesis using adj by (simp add: sorted_wrt_iff_nth_Suc_transp)
qed

lemma mkqs_pre_ordered_check_sorted:
  fixes state :: "('d, 'p, 'k, 'e) Tuplesortstate"
  assumes ok: "mkqs_comparator_ok state" and tok: "mkqs_tuple_compare_ok state"
    and d: "depth < nKeys state"
    and run: "mkqs_pre_ordered_check x (int (length x)) depth state w = Inr (True, w')"
  shows "sorted_wrt (\<lambda>a b. compare_range_spec a b depth state \<le> 0) x"
proof (rule sorted_wrt_adjacent)
  fix a b c
  assume "compare_range_spec a b depth state \<le> 0" "compare_range_spec b c depth state \<le> 0"
  then show "compare_range_spec a c depth state \<le> 0" by (rule compare_range_spec_trans [OF ok])
next
  show "\<forall>j. Suc j < length x \<longrightarrow> compare_range_spec (x ! j) (x ! Suc j) depth state \<le> 0"
  proof (cases "mkqsCompFuncType state \<noteq> MKQS_COMP_FUNC_GENERIC")
    case True
    with run have d0: "depth = 0" and loop: "mkqs_pre_ordered_loop x (int (length x)) state 0 w = Inr (True, w')"
      by (auto simp: mkqs_pre_ordered_check_def split: if_splits)
    have "\<forall>j. Suc j < length x \<longrightarrow> mkqs_compare_tuple (x ! j) (x ! Suc j) state \<le> 0"
      using mkqs_pre_ordered_loop_True [OF loop] by auto
    then have "\<forall>j. Suc j < length x \<longrightarrow> mkqs_compare_tuple_by_range (x ! j) (x ! Suc j) 0 state \<le> 0"
      using tok True by (auto simp: mkqs_tuple_compare_ok_def not_less [symmetric])
    then show ?thesis using d d0 by (simp add: compare_tuple_by_range_spec)
  next
    case False
    with run have loop: "mkqs_strict_ordered_loop x (int (length x)) depth state 0 w = Inr (True, w')"
      by (auto simp: mkqs_pre_ordered_check_def)
    have "\<forall>j. Suc j < length x \<longrightarrow> mkqs_compare_datum (x ! j) (x ! Suc j) depth state < 0"
      using mkqs_strict_ordered_loop_True [OF loop] by auto
    then show ?thesis using d by (auto simp: compare_range_spec_cases)
  qed
qed

subsection \<open>The completed sort is ordered\<close>

lemma mkqs_recurse_complete:
  fixes state :: "('d, 'p, 'k, 'e) Tuplesortstate"
  assumes "mkqs_recurse L E G depth state seenNull w = (x', calls, Inr w')"
  obtains L' E' G' c1 c2 c3 w3 w4 where
    "mk_qsort_tuple L depth state seenNull w = (L', c1, Inr w3)"
    "mkqs_equal_call E depth state seenNull w3 = (E', c2, Inr w4)"
    "mk_qsort_tuple G depth state seenNull w4 = (G', c3, Inr w')"
    "x' = L' @ E' @ G'" "calls = c1 @ c2 @ c3"
proof -
  obtain L' c1 r1 where c1: "mk_qsort_tuple L depth state seenNull w = (L', c1, r1)"
    by (metis prod_cases3)
  show ?thesis
  proof (cases r1)
    case (Inl e)
    then show ?thesis using assms c1 by (simp add: mkqs_recurse_def)
  next
    case (Inr w3)
    obtain E' c2 r2 where c2: "mkqs_equal_call E depth state seenNull w3 = (E', c2, r2)"
      by (metis prod_cases3)
    show ?thesis
    proof (cases r2)
      case e: (Inl e)
      then show ?thesis using assms c1 Inr c2 by (simp add: mkqs_recurse_def)
    next
      case r: (Inr w4)
      obtain G' c3 r3 where c3: "mk_qsort_tuple G depth state seenNull w4 = (G', c3, r3)"
        by (metis prod_cases3)
      have "x' = L' @ E' @ G'" "calls = c1 @ c2 @ c3" "r3 = Inr w'"
        using assms c1 Inr c2 r c3 by (simp_all add: mkqs_recurse_def)
      then show ?thesis using that [of L' c1 w3 E' c2 w4 G' c3] c1 Inr c2 r c3 by simp
    qed
  qed
qed

lemma mkqs_partition_parts_cmp:
  fixes state :: "('d, 'p, 'k, 'e) Tuplesortstate"
  assumes "n = int (length x)" and "1 \<le> n"
    and "mkqs_partition x n depth state w = (x1, Inr ((ls, le, gs, ge), w'))"
    and "L = mkqs_slice x1 0 (le - ls)"
    and "E = mkqs_slice x1 (le - ls) (ls + n - ge - 1)"
    and "G = mkqs_slice x1 (n - (ge - gs)) (ge - gs)"
    and "p = x ! nat (mkqs_select_pivot x n depth state)"
    and "mkqs_compare_datum p p depth state = 0"
  shows "\<forall>t \<in> set L. mkqs_compare_datum t p depth state < 0"
    and "\<forall>t \<in> set E. mkqs_compare_datum t p depth state = 0"
    and "\<forall>t \<in> set G. mkqs_compare_datum t p depth state > 0"
proof -
  note lay = mkqs_partition_layout [OF assms(1-3,7)]
  note perm = mkqs_partition_perm [OF assms(1-3)]
  let ?a = "le - ls" and ?k = "ls + n - ge - 1"
  have len: "n = int (length x1)" using perm assms(1) by simp
  have b: "0 \<le> ?a" "0 \<le> ?k" "?a + ?k \<le> n" "?a + ?k = n - (ge - gs)"
    "n - (?a + ?k) = ge - gs" "0 \<le> ge - gs"
    using lay by auto
  show "\<forall>t \<in> set L. mkqs_compare_datum t p depth state < 0"
    unfolding assms(4) using lay b len by (intro mkqs_slice_all) auto
  have "\<forall>t \<in> set E. t = p \<or> mkqs_compare_datum t p depth state = 0"
    unfolding assms(5) using lay b len by (intro mkqs_slice_all) auto
  then show "\<forall>t \<in> set E. mkqs_compare_datum t p depth state = 0"
    using assms(8) by auto
  show "\<forall>t \<in> set G. mkqs_compare_datum t p depth state > 0"
    unfolding assms(6) using lay b len by (intro mkqs_slice_all) auto
qed

text \<open>
  Three parts, each in order from this depth on, with every tuple of the first below the
  pivot, every tuple of the second equal to it and every tuple of the third above it at
  this depth, are in order when put together.
\<close>

lemma mkqs_three_parts_sorted:
  fixes state :: "('d, 'p, 'k, 'e) Tuplesortstate"
  assumes ok: "mkqs_comparator_ok state" and d: "depth < nKeys state"
    and L: "\<forall>t \<in> set L. mkqs_compare_datum t p depth state < 0"
    and E: "\<forall>t \<in> set E. mkqs_compare_datum t p depth state = 0"
    and G: "\<forall>t \<in> set G. mkqs_compare_datum t p depth state > 0"
    and sL: "sorted_wrt (\<lambda>a b. compare_range_spec a b depth state \<le> 0) L"
    and sE: "sorted_wrt (\<lambda>a b. compare_range_spec a b (Suc depth) state \<le> 0) E"
    and sG: "sorted_wrt (\<lambda>a b. compare_range_spec a b depth state \<le> 0) G"
  shows "sorted_wrt (\<lambda>a b. compare_range_spec a b depth state \<le> 0) (L @ E @ G)"
proof -
  let ?c = "\<lambda>a b. mkqs_compare_datum a b depth state"
  have po: "mkqs_preorder ?c" using ok d by (simp add: mkqs_comparator_ok_def)
  have lt: "compare_range_spec a b depth state \<le> 0" if "?c a b < 0" for a b
    using that d by (simp add: compare_range_spec_cases)
  have pG: "?c p b < 0" if "b \<in> set G" for b
    using G that po by (auto simp: mkqs_preorder_def)
  have pE: "?c p b = 0" if "b \<in> set E" for b
    using E that mkqs_preorder_sym [OF po] by auto
  have LE: "\<forall>a \<in> set L. \<forall>b \<in> set E. compare_range_spec a b depth state \<le> 0"
    using L pE mkqs_preorder_lt_le [OF po] by (intro ballI lt) (metis order_refl)
  have LG: "\<forall>a \<in> set L. \<forall>b \<in> set G. compare_range_spec a b depth state \<le> 0"
    using L pG mkqs_preorder_lt_le [OF po] by (intro ballI lt) (metis less_imp_le)
  have EG: "\<forall>a \<in> set E. \<forall>b \<in> set G. compare_range_spec a b depth state \<le> 0"
    using E pG mkqs_preorder_le_lt [OF po] by (intro ballI lt) (metis order_refl)
  have EE: "compare_range_spec a b depth state = compare_range_spec a b (Suc depth) state"
    if "a \<in> set E" "b \<in> set E" for a b
  proof -
    have "?c a b = 0" using E pE that mkqs_preorder_eq_trans [OF po, of a p b] by auto
    then show ?thesis using d by (simp add: compare_range_spec_cases)
  qed
  have sE': "sorted_wrt (\<lambda>a b. compare_range_spec a b depth state \<le> 0) E"
    using sE by (rule sorted_wrt_mono_rel [rotated]) (simp add: EE)
  show ?thesis
    using sL sE' sG LE LG EG by (auto simp: sorted_wrt_append)
qed

lemma mkqs_equal_call_mset:
  fixes state :: "('d, 'p, 'k, 'e) Tuplesortstate"
  assumes "mkqs_handler_permutes state"
  shows "mset (fst (mkqs_equal_call E depth state seenNull w)) = mset E"
  using mk_qsort_tuple_mset [OF assms] mkqs_handle_dup_mset [OF assms]
  by (simp add: mkqs_equal_call_def)

lemma mk_qsort_tuple_part_recurse:
  fixes state :: "('d, 'p, 'k, 'e) Tuplesortstate"
  assumes h: "mkqs_handler_permutes state"
    and x: "1 < length x" "depth \<noteq> nKeys state"
    and chk: "(CHECK_FOR_INTERRUPTS w :: 'e mkqs_error + nat option) = Inr w0"
    and pre: "mkqs_pre_ordered_check x (int (length x)) depth state w0 = Inr (False, w1)"
    and big: "\<not> (length x < 16 \<and> mkqsHandleDupFunc state = None)"
    and part: "mkqs_partition x (int (length x)) depth state w1 = (x1, Inr ((ls, le, gs, ge), w2))"
    and L: "L = mkqs_slice x1 0 (le - ls)"
    and E: "E = mkqs_slice x1 (le - ls) (ls + int (length x) - ge - 1)"
    and G: "G = mkqs_slice x1 (int (length x) - (ge - gs)) (ge - gs)"
  shows "mk_qsort_tuple x depth state seenNull w = mkqs_recurse L E G depth state seenNull w2"
proof (rule mk_qsort_tuple_part_eq [OF x chk pre big part L E G])
  show "length (fst (mk_qsort_tuple L depth state sn w')) = length L" for sn w'
    using mk_qsort_tuple_mset [OF h, of L depth sn w'] by (rule mset_eq_length)
  show "length (fst (mkqs_equal_call E depth state sn w')) = length E" for sn w'
    using mkqs_equal_call_mset [OF h, of E depth sn w'] by (rule mset_eq_length)
  show "length (fst (mk_qsort_tuple G depth state sn w')) = length G" for sn w'
    using mk_qsort_tuple_mset [OF h, of G depth sn w'] by (rule mset_eq_length)
qed

lemma mkqs_sorted_from:
  fixes state :: "('d, 'p, 'k, 'e) Tuplesortstate"
  assumes ok: "mkqs_comparator_ok state" and tok: "mkqs_tuple_compare_ok state"
    and h: "mkqs_handler_permutes state"
  shows "depth \<le> nKeys state \<Longrightarrow>
         mk_qsort_tuple x depth state seenNull w = (x', calls, Inr w') \<Longrightarrow>
         sorted_wrt (\<lambda>a b. compare_range_spec a b depth state \<le> 0) x'"
proof -
  let ?P = "\<lambda>(x :: ('d, 'p) SortTuple list) depth. depth \<le> nKeys state \<longrightarrow>
      (\<forall>seenNull w x' calls w'. mk_qsort_tuple x depth state seenNull w = (x', calls, Inr w') \<longrightarrow>
         sorted_wrt (\<lambda>a b. compare_range_spec a b depth state \<le> 0) x')"
  have "?P x depth"
  proof (rule mkqs_induct [where state = state and P = ?P])
    fix x :: "('d, 'p) SortTuple list" and depth
    assume step: "\<And>x' depth'. depth' = depth \<and> length x' < length x \<or>
        depth' = depth + 1 \<and> depth' < nKeys state \<Longrightarrow> ?P x' depth'"
    show "?P x depth"
    proof (intro impI allI)
      fix seenNull w x' calls w'
      assume dk: "depth \<le> nKeys state"
        and run: "mk_qsort_tuple x depth state seenNull w = (x', calls, Inr w')"
      let ?le = "\<lambda>a b. compare_range_spec a b depth state \<le> 0"
      show "sorted_wrt ?le x'"
      proof (cases rule: mk_qsort_tuple_cases
          [where x = x and depth = depth and state = state and seenNull = seenNull and w = w])
        case base
        show ?thesis
        proof (cases "length x \<le> 1")
          case True
          then have "x = [] \<or> (\<exists>a. x = [a])"
            by (cases x) auto
          then have "sorted_wrt ?le x" by auto
          then show ?thesis using base(2) run by simp
        next
          case False
          then have nk: "nKeys state \<le> depth" using base(1) by simp
          have "sorted_wrt ?le x"
            by (rule sorted_wrt_mono_rel [of x "\<lambda>_ _. True"])
               (simp_all add: compare_range_spec_end [OF nk])
          then show ?thesis using base(2) run by simp
        qed
      next
        case (cancel e)
        then show ?thesis using run by simp
      next
        case (ordered w0 w1)
        have "depth < nKeys state" using dk ordered(2) by simp
        from mkqs_pre_ordered_check_sorted [OF ok tok this ordered(4)]
        show ?thesis using ordered(5) run by simp
      next
        case (small w0 w1)
        have d: "depth < nKeys state" using dk small(2) by simp
        have "sorted_wrt (\<lambda>a b. mkqs_compare_tuple_by_range a b depth state \<le> 0)
            (mkqs_bubble_outer x (int (length x)) depth state 0)"
        proof (rule mkqs_bubble_outer_sorted [OF _ _ refl])
          fix a b c
          assume "mkqs_compare_tuple_by_range a b depth state \<le> 0"
            "mkqs_compare_tuple_by_range b c depth state \<le> 0"
          then show "mkqs_compare_tuple_by_range a c depth state \<le> 0"
            using compare_range_spec_trans [OF ok, of a b depth c] d
            by (simp add: compare_tuple_by_range_spec)
        next
          fix a b
          assume "0 < mkqs_compare_tuple_by_range a b depth state"
          then show "mkqs_compare_tuple_by_range b a depth state \<le> 0"
            using compare_range_spec_flip [OF ok, of b a depth] d
            by (simp add: compare_tuple_by_range_spec)
        qed simp_all
        then show ?thesis using small(7) run d by (simp add: compare_tuple_by_range_spec)
      next
        case (part_cancel w0 w1 x1 e)
        then show ?thesis using run by simp
      next
        case (part w0 w1 x1 ls le gs ge w2)
        have d: "depth < nKeys state" using dk part(2) by simp
        define L where "L = mkqs_slice x1 0 (le - ls)"
        define E where "E = mkqs_slice x1 (le - ls) (ls + int (length x) - ge - 1)"
        define G where "G = mkqs_slice x1 (int (length x) - (ge - gs)) (ge - gs)"
        define p where "p = x ! nat (mkqs_select_pivot x (int (length x)) depth state)"
        have n1: "1 \<le> int (length x)" using part(1) by simp
        note pp = mkqs_partition_parts [OF refl n1 part(6) L_def E_def G_def]
        have po: "mkqs_preorder (\<lambda>a b. mkqs_compare_datum a b depth state)"
          using ok d by (simp add: mkqs_comparator_ok_def)
        then have pr: "mkqs_compare_datum p p depth state = 0" by (simp add: mkqs_preorder_def)
        note pc = mkqs_partition_parts_cmp [OF refl n1 part(6) L_def E_def G_def p_def pr]
        have eq: "mkqs_recurse L E G depth state seenNull w2 = (x', calls, Inr w')"
          using mk_qsort_tuple_part_recurse [OF h part L_def E_def G_def, of seenNull] run by simp
        from eq obtain L' E' G' c1 c2 c3 w3 w4 where
          cL: "mk_qsort_tuple L depth state seenNull w2 = (L', c1, Inr w3)" and
          cE: "mkqs_equal_call E depth state seenNull w3 = (E', c2, Inr w4)" and
          cG: "mk_qsort_tuple G depth state seenNull w4 = (G', c3, Inr w')" and
          x': "x' = L' @ E' @ G'"
          by (rule mkqs_recurse_complete)
        have mL: "mset L' = mset L" using mk_qsort_tuple_mset [OF h, of L depth seenNull w2] cL by simp
        have mE: "mset E' = mset E" using mkqs_equal_call_mset [OF h, of E depth seenNull w3] cE by simp
        have mG: "mset G' = mset G" using mk_qsort_tuple_mset [OF h, of G depth seenNull w4] cG by simp
        have sets: "set L' = set L" "set E' = set E" "set G' = set G"
          using mL mE mG by (auto dest: mset_eq_setD)
        have "depth = depth \<and> length L < length x \<or> depth = depth + 1 \<and> depth < nKeys state"
          using pp(6) by simp
        from step [rule_format, OF this dk cL] have sL: "sorted_wrt ?le L'" .
        have "depth = depth \<and> length G < length x \<or> depth = depth + 1 \<and> depth < nKeys state"
          using pp(7) by simp
        from step [rule_format, OF this dk cG] have sG: "sorted_wrt ?le G'" .
        have sE: "sorted_wrt (\<lambda>a b. compare_range_spec a b (Suc depth) state \<le> 0) E'"
        proof (cases "depth + 1 < nKeys state")
          case True
          then have c: "mk_qsort_tuple E (depth + 1) state
              (seenNull \<or> check_datum_null (hd E) depth state) w3 = (E', c2, Inr w4)"
            using cE by (simp add: mkqs_equal_call_def)
          have "depth + 1 = depth \<and> length E < length x \<or>
              depth + 1 = depth + 1 \<and> depth + 1 < nKeys state"
            using True by simp
          from step [rule_format, OF this _ c] True show ?thesis by simp
        next
          case False
          then have nk: "nKeys state \<le> Suc depth" by simp
          show ?thesis
            by (rule sorted_wrt_mono_rel [of E' "\<lambda>_ _. True"])
               (simp_all add: compare_range_spec_end [OF nk])
        qed
        have cL': "\<forall>t \<in> set L'. mkqs_compare_datum t p depth state < 0"
          using pc(1) sets(1) by simp
        have cE': "\<forall>t \<in> set E'. mkqs_compare_datum t p depth state = 0"
          using pc(2) sets(2) by simp
        have cG': "\<forall>t \<in> set G'. mkqs_compare_datum t p depth state > 0"
          using pc(3) sets(3) by simp
        show ?thesis
          unfolding x' by (rule mkqs_three_parts_sorted [OF ok d cL' cE' cG' sL sE sG])
      qed
    qed
  qed
  from this [rule_format]
  show "depth \<le> nKeys state \<Longrightarrow>
         mk_qsort_tuple x depth state seenNull w = (x', calls, Inr w') \<Longrightarrow>
         sorted_wrt (\<lambda>a b. compare_range_spec a b depth state \<le> 0) x'" .
qed

subsection \<open>The example configuration is well behaved\<close>

lemma ex_compare_preorder:
  "mkqs_preorder (\<lambda>a b. ex_compare (f a) (g a) (f b) (g b) ())"
  unfolding mkqs_preorder_def ex_compare_def by (auto split: if_splits)

lemma ex_comparator_ok: "mkqs_comparator_ok (ex_state kind h)"
  unfolding mkqs_comparator_ok_def
proof (intro allI impI)
  fix d assume "d < nKeys (ex_state kind h)"
  show "mkqs_preorder (\<lambda>a b. mkqs_compare_datum a b d (ex_state kind h))"
  proof (cases "d = 0")
    case True
    then show ?thesis
      using ex_compare_preorder [of datum1 isnull1] by (simp add: ex_compare_datum)
  next
    case False
    then show ?thesis
      using ex_compare_preorder [of "\<lambda>a. fst (ex_datum a d)" "\<lambda>a. snd (ex_datum a d)"]
      by (simp add: ex_compare_datum)
  qed
qed

lemma ex_compare_range:
  "mkqs_compare_tuple_by_range a b 0 (ex_state kind h) = ex_compare_tuple a b"
proof -
  have k: "nKeys (ex_state kind h) = 2" by (simp add: ex_state_def)
  have "compare_range_spec a b 0 (ex_state kind h) = ex_compare_tuple a b"
    by (simp add: compare_range_spec_def k ex_compare_datum first_nonzero_def ex_compare_tuple_def
        Let_def upt_rec [of 0] upt_rec [of 1] numeral_2_eq_2)
  then show ?thesis by (simp add: compare_tuple_by_range_spec k)
qed

lemma ex_tuple_compare_ok: "mkqs_tuple_compare_ok (ex_state kind h)"
proof -
  have "mkqs_compare_tuple a b (ex_state kind h) = ex_compare_tuple a b"
    if "kind \<noteq> MKQS_COMP_FUNC_GENERIC" for a b
    using that by (cases kind) (simp_all add: mkqs_compare_tuple_def ex_state_def)
  then show ?thesis
    by (simp add: mkqs_tuple_compare_ok_def ex_compare_range) (simp add: ex_state_def)
qed

lemma ex_keep_permutes: "mkqs_handler_permutes (ex_state kind (Some ex_keep))"
  by (simp add: mkqs_handler_permutes_def ex_state_def ex_keep_def)

lemma ex_none_permutes: "mkqs_handler_permutes (ex_state kind None)"
  by (simp add: mkqs_handler_permutes_def ex_state_def)





subsection \<open>A second run\<close>

lemma mkqs_pre_ordered_loop_sorted:
  fixes state :: "('d, 'p, 'k, 'e) Tuplesortstate"
  shows "\<forall>j. i \<le> int j \<and> int j < n - 1 \<longrightarrow> mkqs_compare_tuple (x ! j) (x ! Suc j) state \<le> 0 \<Longrightarrow>
   0 \<le> i \<Longrightarrow> mkqs_pre_ordered_loop x n state i w \<noteq> Inr (False, w')"
proof (induction x n state i w rule: mkqs_pre_ordered_loop.induct)
  case (1 x n state i w)
  show ?case
  proof (cases "i < n - 1")
    case False
    then show ?thesis by (simp add: mkqs_pre_ordered_loop.simps [of x n state i w])
  next
    case True
    have "mkqs_compare_tuple (x ! nat i) (x ! Suc (nat i)) state \<le> 0"
      using "1.prems" True by (intro "1.prems"(1) [rule_format]) auto
    moreover have "nat (i + 1) = Suc (nat i)" using "1.prems"(2) by simp
    ultimately have le: "\<not> 0 < mkqs_compare_tuple (x ! nat i) (x ! nat (i + 1)) state" by simp
    show ?thesis
    proof (cases "CHECK_FOR_INTERRUPTS w :: 'e mkqs_error + nat option")
      case (Inl e)
      then show ?thesis using True by (simp add: mkqs_pre_ordered_loop.simps [of x n state i w])
    next
      case (Inr w1)
      have "mkqs_pre_ordered_loop x n state (i + 1) w1 \<noteq> Inr (False, w')"
        using "1.IH" [OF True Inr le] "1.prems" by auto
      then show ?thesis
        using True Inr le by (simp add: mkqs_pre_ordered_loop.simps [of x n state i w])
    qed
  qed
qed

lemma mkqs_bubble_outer_sorted_id:
  "sorted_wrt (\<lambda>a b. mkqs_compare_tuple_by_range a b depth state \<le> 0) x \<Longrightarrow>
   n = int (length x) \<Longrightarrow> 0 \<le> m \<Longrightarrow> mkqs_bubble_outer x n depth state m = x"
proof (induction x n depth state m rule: mkqs_bubble_outer.induct)
  case (1 x n depth state m)
  show ?case
  proof (cases "m < n")
    case False
    then show ?thesis by (simp add: mkqs_bubble_outer.simps [of x n depth state m])
  next
    case True
    have inner: "mkqs_bubble_inner x depth state m = x"
    proof (cases "m > 0")
      case False
      then show ?thesis by (simp add: mkqs_bubble_inner.simps [of x depth state m])
    next
      case pos: True
      then have "nat (m - 1) < nat m" "nat m < length x" using True "1.prems" by auto
      then have "mkqs_compare_tuple_by_range (x ! nat (m - 1)) (x ! nat m) depth state \<le> 0"
        using "1.prems"(1) by (simp add: sorted_wrt_iff_nth_less)
      then show ?thesis using pos by (simp add: mkqs_bubble_inner.simps [of x depth state m])
    qed
    have "mkqs_bubble_outer x n depth state (m + 1) = x"
      using "1.IH" [OF True] inner "1.prems" by simp
    then show ?thesis
      using True inner by (simp add: mkqs_bubble_outer.simps [of x n depth state m])
  qed
qed

lemma mkqs_sorted_again:
  fixes state :: "('d, 'p, 'k, 'e) Tuplesortstate"
  assumes tok: "mkqs_tuple_compare_ok state"
    and s: "sorted_wrt (\<lambda>a b. compare_range_spec a b 0 state \<le> 0) y"
    and second: "mk_qsort_tuple y 0 state False v = (z, calls', Inr v')"
    and kind: "mkqsCompFuncType state \<noteq> MKQS_COMP_FUNC_GENERIC \<or>
               length y < 16 \<and> mkqsHandleDupFunc state = None"
  shows "z = y \<and> calls' = []"
proof (cases rule: mk_qsort_tuple_cases
    [where x = y and depth = 0 and state = state and seenNull = False and w = v])
  case base
  then show ?thesis using second by simp
next
  case (cancel e)
  then show ?thesis using second by simp
next
  case (ordered w0 w1)
  then show ?thesis using second by simp
next
  case (small w0 w1)
  have k: "0 < nKeys state" using small(2) by simp
  have "sorted_wrt (\<lambda>a b. mkqs_compare_tuple_by_range a b 0 state \<le> 0) y"
    using s k by (simp add: compare_tuple_by_range_spec)
  then have "mkqs_bubble_outer y (int (length y)) 0 state 0 = y"
    by (rule mkqs_bubble_outer_sorted_id) simp_all
  then show ?thesis using small(7) second by simp
next
  case (part_cancel w0 w1 x1 e)
  then show ?thesis using second by simp
next
  case (part w0 w1 x1 ls le gs ge w2)
  have k: "0 < nKeys state" using part(2) by simp
  from kind part(5) have g: "mkqsCompFuncType state \<noteq> MKQS_COMP_FUNC_GENERIC" by auto
  then have loop: "mkqs_pre_ordered_loop y (int (length y)) state 0 w0 = Inr (False, w1)"
    using part(4) by (simp add: mkqs_pre_ordered_check_def)
  have "\<forall>j. Suc j < length y \<longrightarrow> compare_range_spec (y ! j) (y ! Suc j) 0 state \<le> 0"
    using s by (simp add: sorted_wrt_iff_nth_less)
  then have "\<forall>j. Suc j < length y \<longrightarrow> mkqs_compare_tuple_by_range (y ! j) (y ! Suc j) 0 state \<le> 0"
    using k by (simp add: compare_tuple_by_range_spec)
  then have "\<forall>j. Suc j < length y \<longrightarrow> mkqs_compare_tuple (y ! j) (y ! Suc j) state \<le> 0"
    using tok g by (auto simp: mkqs_tuple_compare_ok_def not_less [symmetric])
  then have "\<forall>j. 0 \<le> int j \<and> int j < int (length y) - 1 \<longrightarrow>
      mkqs_compare_tuple (y ! j) (y ! Suc j) state \<le> 0" by auto
  from mkqs_pre_ordered_loop_sorted [OF this, of w0 w1] loop show ?thesis by simp
qed


lemma mkqs_sorted_strict_unique:
  fixes c :: "'a \<Rightarrow> 'a \<Rightarrow> int"
  assumes flip: "\<And>a b. (c a b < 0) = (c b a > 0)"
  shows "sorted_wrt (\<lambda>a b. c a b < 0) y \<Longrightarrow> sorted_wrt (\<lambda>a b. c a b \<le> 0) z \<Longrightarrow>
         mset z = mset y \<Longrightarrow> z = y"
proof (induction y arbitrary: z)
  case Nil
  then show ?case by simp
next
  case (Cons a ys)
  from Cons.prems(3) obtain b zs where z: "z = b # zs" by (cases z) auto
  have ba: "b = a"
  proof (rule ccontr)
    assume ne: "b \<noteq> a"
    have "b \<in># mset (a # ys)" using Cons.prems(3) z by (metis list.set_intros(1) set_mset_mset)
    then have "b \<in> set ys" using ne by simp
    then have lt: "c a b < 0" using Cons.prems(1) by simp
    have "a \<in># mset (b # zs)" using Cons.prems(3) z by (metis list.set_intros(1) set_mset_mset)
    then have "a \<in> set zs" using ne by simp
    then have "c b a \<le> 0" using Cons.prems(2) z by simp
    then show False using lt flip [of a b] by simp
  qed
  have "mset zs = mset ys" using Cons.prems(3) z ba by simp
  moreover have "sorted_wrt (\<lambda>a b. c a b < 0) ys" using Cons.prems(1) by simp
  moreover have "sorted_wrt (\<lambda>a b. c a b \<le> 0) zs" using Cons.prems(2) z by simp
  ultimately have "zs = ys" using Cons.IH by blast
  then show ?case using z ba by simp
qed

lemma compare_range_spec_strict_trans:
  assumes ok: "mkqs_comparator_ok state"
    and ab: "compare_range_spec a b depth state < 0"
    and bd: "compare_range_spec b d depth state < 0"
  shows "compare_range_spec a d depth state < 0"
proof (rule ccontr)
  assume "\<not> compare_range_spec a d depth state < 0"
  then have "\<not> compare_range_spec d a depth state > 0"
    using compare_range_spec_flip [OF ok, of a d depth] by simp
  then have da: "compare_range_spec d a depth state \<le> 0" by simp
  have "compare_range_spec a b depth state \<le> 0" using ab by simp
  from compare_range_spec_trans [OF ok da this]
  have "compare_range_spec d b depth state \<le> 0" .
  then show False using bd compare_range_spec_flip [OF ok, of b d depth] by simp
qed

lemma mk_qsort_tuple_distinct_again:
  fixes state :: "('d, 'p, 'k, 'e) Tuplesortstate"
  assumes ok: "mkqs_comparator_ok state" and tok: "mkqs_tuple_compare_ok state"
    and h: "mkqs_handler_permutes state"
    and s: "sorted_wrt (\<lambda>a b. compare_range_spec a b 0 state \<le> 0) y"
    and second: "mk_qsort_tuple y 0 state False v = (z, calls', Inr v')"
    and ne: "\<forall>i. i + 1 < length y \<longrightarrow> compare_range_spec (y ! i) (y ! (i + 1)) 0 state \<noteq> 0"
  shows "z = y"
proof (rule mkqs_sorted_strict_unique [where c = "\<lambda>a b. compare_range_spec a b 0 state"])
  fix a b
  show "(compare_range_spec a b 0 state < 0) = (compare_range_spec b a 0 state > 0)"
    by (rule compare_range_spec_flip [OF ok])
next
  show "sorted_wrt (\<lambda>a b. compare_range_spec a b 0 state < 0) y"
  proof (rule sorted_wrt_adjacent)
    fix a b d
    assume "compare_range_spec a b 0 state < 0" "compare_range_spec b d 0 state < 0"
    then show "compare_range_spec a d 0 state < 0" by (rule compare_range_spec_strict_trans [OF ok])
  next
    show "\<forall>j. Suc j < length y \<longrightarrow> compare_range_spec (y ! j) (y ! Suc j) 0 state < 0"
    proof (intro allI impI)
      fix j assume j: "Suc j < length y"
      then have "compare_range_spec (y ! j) (y ! Suc j) 0 state \<le> 0"
        using s by (simp add: sorted_wrt_iff_nth_less)
      moreover have "compare_range_spec (y ! j) (y ! Suc j) 0 state \<noteq> 0"
        using ne [rule_format, of j] j by simp
      ultimately show "compare_range_spec (y ! j) (y ! Suc j) 0 state < 0" by simp
    qed
  qed
next
  show "sorted_wrt (\<lambda>a b. compare_range_spec a b 0 state \<le> 0) z"
    by (rule mkqs_sorted_from [OF ok tok h _ second]) simp
next
  show "mset z = mset y"
    using mk_qsort_tuple_mset [OF h, of y 0 False v] second by simp
qed

text \<open>
  Seventeen rows: sixteen with the keys (1, 1), told apart by a third column that is no
  sort key, and one row above them. Without a duplicate handler and with 16 tuples or
  more the generic kind partitions an array in order again: a second run moves two of the
  equal tuples.
\<close>

definition ex_rows17 :: "nat list \<Rightarrow> int option list list" where
  "ex_rows17 order = map (\<lambda>i. [Some (if i < 16 then 1 else 2), Some 1, Some (int i)]) order"

lemma mkqs_second_run_no_handler:
  "mk_qsort_tuple (map ex_tuple (ex_rows17 [0, 1, 2, 3, 4, 5, 6, 7, 8, 9, 10, 11, 12, 13, 14, 15, 16])) 0
     (ex_state MKQS_COMP_FUNC_GENERIC None) False None =
     (map ex_tuple (ex_rows17 [15, 1, 2, 3, 4, 5, 6, 7, 8, 9, 10, 11, 12, 13, 14, 0, 16]), [], Inr None) \<and>
   mk_qsort_tuple (map ex_tuple (ex_rows17 [15, 1, 2, 3, 4, 5, 6, 7, 8, 9, 10, 11, 12, 13, 14, 0, 16])) 0
     (ex_state MKQS_COMP_FUNC_GENERIC None) False None =
     (map ex_tuple (ex_rows17 [0, 1, 2, 3, 4, 5, 6, 7, 8, 9, 10, 11, 12, 13, 14, 15, 16]), [], Inr None) \<and>
   map ex_tuple (ex_rows17 [0, 1, 2, 3, 4, 5, 6, 7, 8, 9, 10, 11, 12, 13, 14, 15, 16]) \<noteq>
   map ex_tuple (ex_rows17 [15, 1, 2, 3, 4, 5, 6, 7, 8, 9, 10, 11, 12, 13, 14, 0, 16])"
  by code_simp

text \<open>
  C5, as the specification states it: a second run on the output of a first run leaves
  the array unchanged, for every kind and with tuples that compare equal on all keys. It
  fails for the generic kind with a duplicate handler set (here one that changes
  nothing). The rows have the keys (1, 1), (1, 2), (1, 2) and a third column that is no
  sort key. The output of the first run is in order; its first keys are equal, not
  strictly ascending, so the second run partitions again: the partition at depth 0 swaps
  the middle tuple to the front, the one at depth 1 brings (1, 1) back to the front, and
  the recursion on the two tuples (1, 2) swaps them.
\<close>

theorem mk_qsort_tuple_twice_counterexample:
  "mk_qsort_tuple
     [ex_tuple [Some 1, Some 1, Some 0], ex_tuple [Some 1, Some 2, Some 1], ex_tuple [Some 1, Some 2, Some 2]] 0
     (ex_state MKQS_COMP_FUNC_GENERIC (Some ex_keep)) False None =
     ([ex_tuple [Some 1, Some 1, Some 0], ex_tuple [Some 1, Some 2, Some 2], ex_tuple [Some 1, Some 2, Some 1]],
      [([ex_tuple [Some 1, Some 2, Some 2], ex_tuple [Some 1, Some 2, Some 1]], False)], Inr None) \<and>
   mk_qsort_tuple
     [ex_tuple [Some 1, Some 1, Some 0], ex_tuple [Some 1, Some 2, Some 2], ex_tuple [Some 1, Some 2, Some 1]] 0
     (ex_state MKQS_COMP_FUNC_GENERIC (Some ex_keep)) False None =
     ([ex_tuple [Some 1, Some 1, Some 0], ex_tuple [Some 1, Some 2, Some 1], ex_tuple [Some 1, Some 2, Some 2]],
      [([ex_tuple [Some 1, Some 2, Some 1], ex_tuple [Some 1, Some 2, Some 2]], False)], Inr None) \<and>
   [ex_tuple [Some 1, Some 1, Some 0], ex_tuple [Some 1, Some 2, Some 1], ex_tuple [Some 1, Some 2, Some 2]] \<noteq>
   [ex_tuple [Some 1, Some 1, Some 0], ex_tuple [Some 1, Some 2, Some 2], ex_tuple [Some 1, Some 2, Some 1]]"
  by code_simp

text \<open>
  C5, amended. A second run on the output of a completed first run, itself completed,
  leaves the array unchanged in each of three cases: the kind is a specialised one; the
  array has fewer than 16 tuples and no duplicate handler is set; no two neighbours of the
  output compare equal on all keys. The collaborators are held to their contracts. In the
  case left out (generic kind, tuples equal on all keys, and 16 tuples or more or a
  handler) the second run may reorder equal tuples.
\<close>

theorem mk_qsort_tuple_twice:
  fixes state :: "('d, 'p, 'k, 'e) Tuplesortstate"
  assumes "mkqs_comparator_ok state" and "mkqs_tuple_compare_ok state"
    and "mkqs_handler_permutes state"
    and "mk_qsort_tuple x 0 state False w = (y, calls, Inr w')"
    and "mk_qsort_tuple y 0 state False v = (z, calls', Inr v')"
    and "mkqsCompFuncType state \<noteq> MKQS_COMP_FUNC_GENERIC \<or>
         (length x < 16 \<and> mkqsHandleDupFunc state = None) \<or>
         (\<forall>i. i + 1 < length y \<longrightarrow> compare_range_spec (y ! i) (y ! (i + 1)) 0 state \<noteq> 0)"
  shows "z = y"
proof -
  have s: "sorted_wrt (\<lambda>a b. compare_range_spec a b 0 state \<le> 0) y"
    by (rule mkqs_sorted_from [OF assms(1-3) _ assms(4)]) simp
  have "mset y = mset x"
    using mk_qsort_tuple_mset [OF assms(3), of x 0 False w] assms(4) by simp
  then have len: "length y = length x" by (rule mset_eq_length)
  show ?thesis
  proof (cases "\<forall>i. i + 1 < length y \<longrightarrow> compare_range_spec (y ! i) (y ! (i + 1)) 0 state \<noteq> 0")
    case True
    then show ?thesis by (rule mk_qsort_tuple_distinct_again [OF assms(1-3) s assms(5)])
  next
    case False
    then have "mkqsCompFuncType state \<noteq> MKQS_COMP_FUNC_GENERIC \<or>
               length y < 16 \<and> mkqsHandleDupFunc state = None"
      using assms(6) len by auto
    from mkqs_sorted_again [OF assms(2) s assms(5) this] show ?thesis by simp
  qed
qed

theorem mk_qsort_tuple_twice_witness:
  "mkqs_comparator_ok (ex_state MKQS_COMP_FUNC_GENERIC None) \<and>
   mkqs_tuple_compare_ok (ex_state MKQS_COMP_FUNC_GENERIC None) \<and>
   mkqs_handler_permutes (ex_state MKQS_COMP_FUNC_GENERIC None) \<and>
   mk_qsort_tuple
     [ex_tuple [Some 1, Some 2, Some 1], ex_tuple [Some 1, Some 1, Some 0], ex_tuple [Some 1, Some 2, Some 2]] 0
     (ex_state MKQS_COMP_FUNC_GENERIC None) False None =
     ([ex_tuple [Some 1, Some 1, Some 0], ex_tuple [Some 1, Some 2, Some 1], ex_tuple [Some 1, Some 2, Some 2]],
      [], Inr None) \<and>
   mk_qsort_tuple
     [ex_tuple [Some 1, Some 1, Some 0], ex_tuple [Some 1, Some 2, Some 1], ex_tuple [Some 1, Some 2, Some 2]] 0
     (ex_state MKQS_COMP_FUNC_GENERIC None) False None =
     ([ex_tuple [Some 1, Some 1, Some 0], ex_tuple [Some 1, Some 2, Some 1], ex_tuple [Some 1, Some 2, Some 2]],
      [], Inr None)"
proof -
  let ?st = "ex_state MKQS_COMP_FUNC_GENERIC None"
  let ?x = "[ex_tuple [Some 1, Some 2, Some 1], ex_tuple [Some 1, Some 1, Some 0],
             ex_tuple [Some 1, Some 2, Some 2]]"
  let ?y = "[ex_tuple [Some 1, Some 1, Some 0], ex_tuple [Some 1, Some 2, Some 1],
             ex_tuple [Some 1, Some 2, Some 2]]"
  have first: "mk_qsort_tuple ?x 0 ?st False None = (?y, [], Inr None)"
    by code_simp
  have second: "mk_qsort_tuple ?y 0 ?st False None = (?y, [], Inr None)"
    by code_simp
  have kind: "mkqsCompFuncType ?st \<noteq> MKQS_COMP_FUNC_GENERIC \<or>
         (length ?x < 16 \<and> mkqsHandleDupFunc ?st = None) \<or>
         (\<forall>i. i + 1 < length ?y \<longrightarrow> compare_range_spec (?y ! i) (?y ! (i + 1)) 0 ?st \<noteq> 0)"
    by (simp add: ex_state_def)
  have "?y = ?y"
    by (rule mk_qsort_tuple_twice [OF ex_comparator_ok ex_tuple_compare_ok ex_none_permutes first second kind])
  then show ?thesis
    using ex_comparator_ok ex_tuple_compare_ok ex_none_permutes first second by blast
qed

subsection \<open>The null flag of the duplicate handler\<close>

text \<open>
  A contract of the per-depth comparator: a NULL and a value never compare equal, so that
  tuples equal at a key agree there on being NULL.
\<close>

definition mkqs_null_consistent :: "('d, 'p, 'k, 'e) Tuplesortstate \<Rightarrow> bool" where
  "mkqs_null_consistent state \<longleftrightarrow>
     (\<forall>d < nKeys state. \<forall>a b. mkqs_compare_datum a b d state = 0 \<longrightarrow>
        check_datum_null a d state = check_datum_null b d state)"

text \<open>What a recorded handler call must satisfy: the flag tells, for each tuple of the run,
  whether one of its keys is NULL.\<close>

definition mkqs_flag_ok ::
  "('d, 'p, 'k, 'e) Tuplesortstate \<Rightarrow> ('d, 'p) SortTuple list \<times> bool \<Rightarrow> bool" where
  "mkqs_flag_ok state c \<longleftrightarrow>
     fst c \<noteq> [] \<and> (\<forall>t \<in> set (fst c). snd c = (\<exists>d < nKeys state. check_datum_null t d state))"

lemma mkqs_recurse_calls:
  fixes state :: "('d, 'p, 'k, 'e) Tuplesortstate"
  assumes iL: "\<And>w. \<forall>c \<in> set (fst (snd (mk_qsort_tuple L depth state seenNull w))). P c"
    and iE: "\<And>w. \<forall>c \<in> set (fst (snd (mkqs_equal_call E depth state seenNull w))). P c"
    and iG: "\<And>w. \<forall>c \<in> set (fst (snd (mk_qsort_tuple G depth state seenNull w))). P c"
  shows "\<forall>c \<in> set (fst (snd (mkqs_recurse L E G depth state seenNull w))). P c"
proof -
  obtain L' c1 r1 where cL: "mk_qsort_tuple L depth state seenNull w = (L', c1, r1)"
    by (cases "mk_qsort_tuple L depth state seenNull w") auto
  have p1: "\<forall>c \<in> set c1. P c" using iL [of w] cL by simp
  show ?thesis
  proof (cases r1)
    case (Inl e)
    then show ?thesis using cL p1 by (simp add: mkqs_recurse_def)
  next
    case (Inr w3)
    obtain E' c2 r2 where cE: "mkqs_equal_call E depth state seenNull w3 = (E', c2, r2)"
      by (cases "mkqs_equal_call E depth state seenNull w3") auto
    have p2: "\<forall>c \<in> set c2. P c" using iE [of w3] cE by simp
    show ?thesis
    proof (cases r2)
      case (Inl e)
      then show ?thesis using cL Inr cE p1 p2 by (auto simp: mkqs_recurse_def)
    next
      case w4: (Inr w4)
      obtain G' c3 r3 where cG: "mk_qsort_tuple G depth state seenNull w4 = (G', c3, r3)"
        by (cases "mk_qsort_tuple G depth state seenNull w4") auto
      have p3: "\<forall>c \<in> set c3. P c" using iG [of w4] cG by simp
      show ?thesis using cL Inr cE w4 cG p1 p2 p3 by (auto simp: mkqs_recurse_def)
    qed
  qed
qed

lemma mk_qsort_tuple_flag_from:
  fixes state :: "('d, 'p, 'k, 'e) Tuplesortstate"
  assumes ok: "mkqs_comparator_ok state" and h: "mkqs_handler_permutes state"
    and nc: "mkqs_null_consistent state"
  shows "depth \<le> nKeys state \<Longrightarrow>
         \<forall>t \<in> set x. seenNull = (\<exists>d < depth. check_datum_null t d state) \<Longrightarrow>
         \<forall>c \<in> set (fst (snd (mk_qsort_tuple x depth state seenNull w))). mkqs_flag_ok state c"
proof -
  let ?P = "\<lambda>(x :: ('d, 'p) SortTuple list) depth. depth \<le> nKeys state \<longrightarrow>
      (\<forall>seenNull w. (\<forall>t \<in> set x. seenNull = (\<exists>d < depth. check_datum_null t d state)) \<longrightarrow>
         (\<forall>c \<in> set (fst (snd (mk_qsort_tuple x depth state seenNull w))). mkqs_flag_ok state c))"
  have "?P x depth"
  proof (rule mkqs_induct [where state = state and P = ?P])
    fix x :: "('d, 'p) SortTuple list" and depth
    assume step: "\<And>x' depth'. depth' = depth \<and> length x' < length x \<or>
        depth' = depth + 1 \<and> depth' < nKeys state \<Longrightarrow> ?P x' depth'"
    show "?P x depth"
    proof (intro impI allI)
      fix seenNull w
      assume dk: "depth \<le> nKeys state"
        and inv: "\<forall>t \<in> set x. seenNull = (\<exists>d < depth. check_datum_null t d state)"
      show "\<forall>c \<in> set (fst (snd (mk_qsort_tuple x depth state seenNull w))). mkqs_flag_ok state c"
      proof (cases rule: mk_qsort_tuple_cases
          [where x = x and depth = depth and state = state and seenNull = seenNull and w = w])
        case base
        then show ?thesis by simp
      next
        case (cancel e)
        then show ?thesis by simp
      next
        case (ordered w0 w1)
        then show ?thesis by simp
      next
        case (small w0 w1)
        then show ?thesis by simp
      next
        case (part_cancel w0 w1 x1 e)
        then show ?thesis by simp
      next
        case (part w0 w1 x1 ls le gs ge w2)
        have d: "depth < nKeys state" using dk part(2) by simp
        define L where "L = mkqs_slice x1 0 (le - ls)"
        define E where "E = mkqs_slice x1 (le - ls) (ls + int (length x) - ge - 1)"
        define G where "G = mkqs_slice x1 (int (length x) - (ge - gs)) (ge - gs)"
        define p where "p = x ! nat (mkqs_select_pivot x (int (length x)) depth state)"
        have n1: "1 \<le> int (length x)" using part(1) by simp
        note pp = mkqs_partition_parts [OF refl n1 part(6) L_def E_def G_def]
        have po: "mkqs_preorder (\<lambda>a b. mkqs_compare_datum a b depth state)"
          using ok d by (simp add: mkqs_comparator_ok_def)
        then have pr: "mkqs_compare_datum p p depth state = 0" by (simp add: mkqs_preorder_def)
        note pc = mkqs_partition_parts_cmp [OF refl n1 part(6) L_def E_def G_def p_def pr]
        have eq: "mk_qsort_tuple x depth state seenNull w = mkqs_recurse L E G depth state seenNull w2"
          by (rule mk_qsort_tuple_part_recurse [OF h part L_def E_def G_def])
        have "set x1 = set x" using pp(8) by (rule mset_eq_setD)
        then have sub: "set L \<subseteq> set x" "set E \<subseteq> set x" "set G \<subseteq> set x"
          using pp(1) by auto
        have invL: "\<forall>t \<in> set L. seenNull = (\<exists>d < depth. check_datum_null t d state)"
          using inv sub(1) by blast
        have invE: "\<forall>t \<in> set E. seenNull = (\<exists>d < depth. check_datum_null t d state)"
          using inv sub(2) by blast
        have invG: "\<forall>t \<in> set G. seenNull = (\<exists>d < depth. check_datum_null t d state)"
          using inv sub(3) by blast
        have hdE: "hd E \<in> set E" using pp(5) by simp
        have same: "check_datum_null t depth state = check_datum_null (hd E) depth state"
          if "t \<in> set E" for t
        proof -
          have "check_datum_null t depth state = check_datum_null p depth state"
            using nc d pc(2) that by (simp add: mkqs_null_consistent_def)
          moreover have "check_datum_null (hd E) depth state = check_datum_null p depth state"
            using nc d pc(2) hdE by (simp add: mkqs_null_consistent_def)
          ultimately show ?thesis by simp
        qed
        let ?f = "seenNull \<or> check_datum_null (hd E) depth state"
        have invE': "\<forall>t \<in> set E. ?f = (\<exists>d < Suc depth. check_datum_null t d state)"
        proof
          fix t assume t: "t \<in> set E"
          have "(\<exists>d < Suc depth. check_datum_null t d state) =
                ((\<exists>d < depth. check_datum_null t d state) \<or> check_datum_null t depth state)"
            by (auto simp: less_Suc_eq)
          then show "?f = (\<exists>d < Suc depth. check_datum_null t d state)"
            using invE t same [OF t] by simp
        qed
        have "\<forall>c \<in> set (fst (snd (mkqs_recurse L E G depth state seenNull w2))). mkqs_flag_ok state c"
        proof (rule mkqs_recurse_calls)
          fix v
          have "depth = depth \<and> length L < length x \<or> depth = depth + 1 \<and> depth < nKeys state"
            using pp(6) by simp
          from step [OF this] dk invL
          show "\<forall>c \<in> set (fst (snd (mk_qsort_tuple L depth state seenNull v))). mkqs_flag_ok state c"
            by blast
        next
          fix v
          have "depth = depth \<and> length G < length x \<or> depth = depth + 1 \<and> depth < nKeys state"
            using pp(7) by simp
          from step [OF this] dk invG
          show "\<forall>c \<in> set (fst (snd (mk_qsort_tuple G depth state seenNull v))). mkqs_flag_ok state c"
            by blast
        next
          fix v
          show "\<forall>c \<in> set (fst (snd (mkqs_equal_call E depth state seenNull v))). mkqs_flag_ok state c"
          proof (cases "depth + 1 < nKeys state")
            case True
            have c: "depth + 1 = depth \<and> length E < length x \<or>
                depth + 1 = depth + 1 \<and> depth + 1 < nKeys state"
              using True by simp
            have le: "depth + 1 \<le> nKeys state" using True by simp
            have i: "\<forall>t \<in> set E. ?f = (\<exists>d < depth + 1. check_datum_null t d state)"
              using invE' by simp
            from step [OF c] le i
            have "\<forall>c \<in> set (fst (snd (mk_qsort_tuple E (depth + 1) state ?f v))). mkqs_flag_ok state c"
              by blast
            then show ?thesis
              using True by (simp add: mkqs_equal_call_def)
          next
            case False
            then have k: "nKeys state = Suc depth" using d by simp
            have "mkqs_flag_ok state (E, ?f)"
              using invE' pp(5) by (simp add: mkqs_flag_ok_def k)
            then show ?thesis
              using False
              by (auto simp: mkqs_equal_call_def mkqs_handle_dup_def
                  split: option.splits prod.splits if_splits)
          qed
        qed
        then show ?thesis using eq by simp
      qed
    qed
  qed
  then show "depth \<le> nKeys state \<Longrightarrow>
         \<forall>t \<in> set x. seenNull = (\<exists>d < depth. check_datum_null t d state) \<Longrightarrow>
         \<forall>c \<in> set (fst (snd (mk_qsort_tuple x depth state seenNull w))). mkqs_flag_ok state c"
    by simp
qed

lemma ex_null_consistent: "mkqs_null_consistent (ex_state kind h)"
proof -
  have g: "mkqsGetDatumFunc (ex_state kind h) = ex_get_datum" by (simp add: ex_state_def)
  show ?thesis
    unfolding mkqs_null_consistent_def
    by (auto simp: ex_compare_datum check_datum_null_def ex_compare_def g ex_get_datum_def
        split: if_splits)
qed

text \<open>
  C4, as the specification states it: the flag given to the duplicate handler is true if
  and only if one of the keys above the deepest one is NULL in the run, the deepest key
  not contributing. It fails: two tuples (1, NULL) are given to the handler with the flag
  true, their only key above the deepest one being 1; the NULL is at the deepest key.
\<close>

theorem handler_null_flag_counterexample:
  "mk_qsort_tuple [ex_tuple [Some 1, None], ex_tuple [Some 1, None]] 0
     (ex_state MKQS_COMP_FUNC_GENERIC (Some ex_keep)) False None =
     ([ex_tuple [Some 1, None], ex_tuple [Some 1, None]],
      [([ex_tuple [Some 1, None], ex_tuple [Some 1, None]], True)], Inr None) \<and>
   nKeys (ex_state MKQS_COMP_FUNC_GENERIC (Some ex_keep)) = 2 \<and>
   \<not> check_datum_null (ex_tuple [Some 1, None]) 0 (ex_state MKQS_COMP_FUNC_GENERIC (Some ex_keep)) \<and>
   check_datum_null (ex_tuple [Some 1, None]) 1 (ex_state MKQS_COMP_FUNC_GENERIC (Some ex_keep))"
  by code_simp

text \<open>
  C4, amended. For every call of the duplicate handler made by \<open>mk_qsort_tuple x 0 state False\<close>,
  whatever the outcome of the sort, the run is not empty and the flag is true if and only
  if at least one of all \<open>nKeys\<close> keys, the deepest one included, is NULL in the tuples of
  the run. The per-depth comparator is held to its contract: a total preorder at every
  key under which a NULL and a value never compare equal; the handler only reorders.
\<close>

theorem handler_null_flag:
  fixes state :: "('d, 'p, 'k, 'e) Tuplesortstate"
  assumes "mkqs_comparator_ok state" and "mkqs_handler_permutes state"
    and "mkqs_null_consistent state"
    and "(run, flag) \<in> set (fst (snd (mk_qsort_tuple x 0 state False w)))"
  shows "run \<noteq> [] \<and> flag = (\<exists>d < nKeys state. \<exists>t \<in> set run. check_datum_null t d state)"
proof -
  have "\<forall>c \<in> set (fst (snd (mk_qsort_tuple x 0 state False w))). mkqs_flag_ok state c"
    by (rule mk_qsort_tuple_flag_from [OF assms(1-3)]) simp_all
  then have f: "mkqs_flag_ok state (run, flag)" using assms(4) by blast
  then have ne: "run \<noteq> []" by (simp add: mkqs_flag_ok_def)
  then have m: "hd run \<in> set run" by simp
  have a: "\<forall>t \<in> set run. flag = (\<exists>d < nKeys state. check_datum_null t d state)"
    using f by (simp add: mkqs_flag_ok_def)
  have "flag = (\<exists>d < nKeys state. \<exists>t \<in> set run. check_datum_null t d state)"
  proof
    assume flag
    then have "\<exists>d < nKeys state. check_datum_null (hd run) d state" using a m by blast
    then show "\<exists>d < nKeys state. \<exists>t \<in> set run. check_datum_null t d state" using m by blast
  next
    assume "\<exists>d < nKeys state. \<exists>t \<in> set run. check_datum_null t d state"
    then show flag using a by blast
  qed
  then show ?thesis using ne by simp
qed

theorem handler_null_flag_witness:
  "mkqs_comparator_ok (ex_state MKQS_COMP_FUNC_GENERIC (Some ex_keep)) \<and>
   mkqs_handler_permutes (ex_state MKQS_COMP_FUNC_GENERIC (Some ex_keep)) \<and>
   mkqs_null_consistent (ex_state MKQS_COMP_FUNC_GENERIC (Some ex_keep)) \<and>
   fst (snd (mk_qsort_tuple [ex_tuple [Some 1, None], ex_tuple [Some 1, None], ex_tuple [Some 0, Some 2]] 0
     (ex_state MKQS_COMP_FUNC_GENERIC (Some ex_keep)) False None)) =
     [([ex_tuple [Some 1, None], ex_tuple [Some 1, None]], True)] \<and>
   check_datum_null (ex_tuple [Some 1, None]) 1 (ex_state MKQS_COMP_FUNC_GENERIC (Some ex_keep))"
proof -
  let ?st = "ex_state MKQS_COMP_FUNC_GENERIC (Some ex_keep)"
  let ?run = "[ex_tuple [Some 1, None], ex_tuple [Some 1, None]]"
  let ?x = "[ex_tuple [Some 1, None], ex_tuple [Some 1, None], ex_tuple [Some 0, Some 2]]"
  have calls: "fst (snd (mk_qsort_tuple ?x 0 ?st False None)) = [(?run, True)]"
    by code_simp
  then have mem: "(?run, True) \<in> set (fst (snd (mk_qsort_tuple ?x 0 ?st False None)))"
    by simp
  have n: "check_datum_null (ex_tuple [Some 1, None]) 1 ?st"
    by code_simp
  note t = handler_null_flag [OF ex_comparator_ok ex_keep_permutes ex_null_consistent mem]
  then have "True = (\<exists>d < nKeys ?st. \<exists>t \<in> set ?run. check_datum_null t d ?st)"
    by (rule conjunct2)
  then show ?thesis
    using ex_comparator_ok ex_keep_permutes ex_null_consistent calls n by blast
qed

subsection \<open>The calls of the duplicate handler\<close>

text \<open>
  The tuples of an array that compare equal to \<open>t\<close> at the keys \<open>depth, ..., nKeys - 1\<close>, and
  the recorded handler calls whose run holds such a tuple.
\<close>

definition mkqs_equal_class ::
  "('d, 'p, 'k, 'e) Tuplesortstate \<Rightarrow> nat \<Rightarrow> ('d, 'p) SortTuple \<Rightarrow> ('d, 'p) SortTuple list \<Rightarrow>
   ('d, 'p) SortTuple list" where
  "mkqs_equal_class state depth t x = filter (\<lambda>u. compare_range_spec t u depth state = 0) x"

definition mkqs_runs_with ::
  "('d, 'p, 'k, 'e) Tuplesortstate \<Rightarrow> nat \<Rightarrow> ('d, 'p) SortTuple \<Rightarrow>
   (('d, 'p) SortTuple list \<times> bool) list \<Rightarrow> ('d, 'p) SortTuple list list" where
  "mkqs_runs_with state depth t calls =
     filter (\<lambda>r. \<exists>u \<in> set r. compare_range_spec t u depth state = 0) (map fst calls)"

lemma mkqs_runs_with_append:
  "mkqs_runs_with state d t (a @ b) = mkqs_runs_with state d t a @ mkqs_runs_with state d t b"
  by (simp add: mkqs_runs_with_def)

lemma mkqs_runs_with_none:
  assumes "\<forall>c \<in> set calls. set (fst c) \<subseteq> S"
    and "\<forall>u \<in> S. compare_range_spec t u d state \<noteq> 0"
  shows "mkqs_runs_with state d t calls = []"
  unfolding mkqs_runs_with_def filter_empty_conv using assms by fastforce

lemma mkqs_runs_with_cong:
  assumes "\<forall>c \<in> set calls. set (fst c) \<subseteq> S"
    and "\<forall>u \<in> S. (compare_range_spec t u d state = 0) = (compare_range_spec t u d' state = 0)"
  shows "mkqs_runs_with state d t calls = mkqs_runs_with state d' t calls"
  unfolding mkqs_runs_with_def
proof (rule filter_cong [OF refl])
  fix r assume "r \<in> set (map fst calls)"
  then have "set r \<subseteq> S" using assms(1) by auto
  then show "(\<exists>u \<in> set r. compare_range_spec t u d state = 0) =
             (\<exists>u \<in> set r. compare_range_spec t u d' state = 0)"
    using assms(2) by blast
qed

lemma mkqs_equal_class_none:
  "\<forall>u \<in> set x. compare_range_spec t u d state \<noteq> 0 \<Longrightarrow> mkqs_equal_class state d t x = []"
  by (simp add: mkqs_equal_class_def filter_empty_conv)

lemma mkqs_equal_class_cong:
  "\<forall>u \<in> set x. (compare_range_spec t u d state = 0) = (compare_range_spec t u d' state = 0) \<Longrightarrow>
   mkqs_equal_class state d t x = mkqs_equal_class state d' t x"
  unfolding mkqs_equal_class_def by (rule filter_cong [OF refl]) simp

lemma mkqs_equal_class_parts:
  assumes "mset x = mset (L @ E @ G)"
  shows "mset (mkqs_equal_class state d t x) =
         mset (mkqs_equal_class state d t L) + mset (mkqs_equal_class state d t E) +
         mset (mkqs_equal_class state d t G)"
proof -
  have "mset (mkqs_equal_class state d t x) =
        filter_mset (\<lambda>u. compare_range_spec t u d state = 0) (mset x)"
    by (simp add: mkqs_equal_class_def)
  also have "\<dots> = filter_mset (\<lambda>u. compare_range_spec t u d state = 0) (mset (L @ E @ G))"
    using assms by simp
  finally show ?thesis by (simp add: mkqs_equal_class_def)
qed

lemma mkqs_class_side:
  assumes po: "mkqs_preorder (\<lambda>a b. mkqs_compare_datum a b depth state)"
    and d: "depth < nKeys state"
  shows "mkqs_compare_datum t p depth state < 0 \<Longrightarrow> mkqs_compare_datum u p depth state \<ge> 0 \<Longrightarrow>
           compare_range_spec t u depth state \<noteq> 0"
    and "mkqs_compare_datum t p depth state > 0 \<Longrightarrow> mkqs_compare_datum u p depth state \<le> 0 \<Longrightarrow>
           compare_range_spec t u depth state \<noteq> 0"
    and "mkqs_compare_datum t p depth state = 0 \<Longrightarrow> mkqs_compare_datum u p depth state \<noteq> 0 \<Longrightarrow>
           compare_range_spec t u depth state \<noteq> 0"
    and "mkqs_compare_datum t p depth state = 0 \<Longrightarrow> mkqs_compare_datum u p depth state = 0 \<Longrightarrow>
           (compare_range_spec t u depth state = 0) = (compare_range_spec t u (Suc depth) state = 0)"
proof -
  let ?c = "\<lambda>a b. mkqs_compare_datum a b depth state"
  have z: "?c t u = 0" if "compare_range_spec t u depth state = 0"
    using that compare_range_spec_cases [OF d, of t u] by (simp split: if_splits)
  have anti: "(?c a b < 0) = (?c b a > 0)" for a b
    using po by (simp add: mkqs_preorder_def)
  show "compare_range_spec t u depth state \<noteq> 0"
    if a: "?c t p < 0" and b: "?c u p \<ge> 0"
  proof
    assume "compare_range_spec t u depth state = 0"
    then have "?c t u = 0" by (rule z)
    then have "?c u t = 0" by (rule mkqs_preorder_sym [OF po])
    then have "?c u t \<le> 0" by simp
    from mkqs_preorder_le_lt [OF po this a] b show False by simp
  qed
  show "compare_range_spec t u depth state \<noteq> 0"
    if a: "?c t p > 0" and b: "?c u p \<le> 0"
  proof
    assume "compare_range_spec t u depth state = 0"
    then have "?c t u = 0" by (rule z)
    then have tu: "?c t u \<le> 0" by simp
    have "?c p t < 0" using a anti [of p t] by simp
    from mkqs_preorder_lt_le [OF po this tu] have "?c p u < 0" .
    then have "?c u p > 0" using anti [of p u] by simp
    then show False using b by simp
  qed
  show "compare_range_spec t u depth state \<noteq> 0"
    if a: "?c t p = 0" and b: "?c u p \<noteq> 0"
  proof
    assume "compare_range_spec t u depth state = 0"
    then have "?c t u = 0" by (rule z)
    then have "?c u t = 0" by (rule mkqs_preorder_sym [OF po])
    from mkqs_preorder_eq_trans [OF po this a] b show False by simp
  qed
  show "(compare_range_spec t u depth state = 0) = (compare_range_spec t u (Suc depth) state = 0)"
    if a: "?c t p = 0" and b: "?c u p = 0"
  proof -
    have "?c p u = 0" using b by (rule mkqs_preorder_sym [OF po])
    from mkqs_preorder_eq_trans [OF po a this] have "?c t u = 0" .
    then show ?thesis using compare_range_spec_cases [OF d, of t u] by simp
  qed
qed

lemma mkqs_strict_class:
  assumes po: "mkqs_preorder (\<lambda>a b. mkqs_compare_datum a b depth state)"
    and d: "depth < nKeys state"
  shows "sorted_wrt (\<lambda>a b. mkqs_compare_datum a b depth state < 0) x \<Longrightarrow>
         length (mkqs_equal_class state depth t x) \<le> 1"
proof (induction x)
  case Nil
  then show ?case by (simp add: mkqs_equal_class_def)
next
  case (Cons a xs)
  let ?c = "\<lambda>a b. mkqs_compare_datum a b depth state"
  have z: "?c t u = 0" if "compare_range_spec t u depth state = 0" for u
    using that compare_range_spec_cases [OF d, of t u] by (simp split: if_splits)
  show ?case
  proof (cases "compare_range_spec t a depth state = 0")
    case False
    then show ?thesis using Cons by (simp add: mkqs_equal_class_def)
  next
    case True
    then have ta: "?c t a = 0" by (rule z)
    have "\<forall>u \<in> set xs. compare_range_spec t u depth state \<noteq> 0"
    proof
      fix u assume u: "u \<in> set xs"
      then have lt: "?c a u < 0" using Cons.prems by simp
      show "compare_range_spec t u depth state \<noteq> 0"
      proof
        assume "compare_range_spec t u depth state = 0"
        then have tu: "?c t u = 0" by (rule z)
        have "?c a t = 0" using ta by (rule mkqs_preorder_sym [OF po])
        from mkqs_preorder_eq_trans [OF po this tu] lt show False by simp
      qed
    qed
    then have "mkqs_equal_class state depth t xs = []" by (rule mkqs_equal_class_none)
    then show ?thesis by (simp add: mkqs_equal_class_def)
  qed
qed

lemma mkqs_handle_dup_calls:
  "\<forall>c \<in> set (fst (snd (mkqs_handle_dup E k flag state w))). fst c = E"
  by (auto simp: mkqs_handle_dup_def split: option.splits prod.splits if_splits)

lemma mk_qsort_tuple_calls_subset:
  fixes state :: "('d, 'p, 'k, 'e) Tuplesortstate"
  assumes h: "mkqs_handler_permutes state"
  shows "\<forall>c \<in> set (fst (snd (mk_qsort_tuple x depth state seenNull w))). set (fst c) \<subseteq> set x"
proof -
  let ?P = "\<lambda>(x :: ('d, 'p) SortTuple list) depth. \<forall>seenNull w.
      \<forall>c \<in> set (fst (snd (mk_qsort_tuple x depth state seenNull w))). set (fst c) \<subseteq> set x"
  have "?P x depth"
  proof (rule mkqs_induct [where state = state and P = ?P])
    fix x :: "('d, 'p) SortTuple list" and depth
    assume step: "\<And>x' depth'. depth' = depth \<and> length x' < length x \<or>
        depth' = depth + 1 \<and> depth' < nKeys state \<Longrightarrow> ?P x' depth'"
    show "?P x depth"
    proof (intro allI)
      fix seenNull w
      show "\<forall>c \<in> set (fst (snd (mk_qsort_tuple x depth state seenNull w))). set (fst c) \<subseteq> set x"
      proof (cases rule: mk_qsort_tuple_cases
          [where x = x and depth = depth and state = state and seenNull = seenNull and w = w])
        case base
        then show ?thesis by simp
      next
        case (cancel e)
        then show ?thesis by simp
      next
        case (ordered w0 w1)
        then show ?thesis by simp
      next
        case (small w0 w1)
        then show ?thesis by simp
      next
        case (part_cancel w0 w1 x1 e)
        then show ?thesis by simp
      next
        case (part w0 w1 x1 ls le gs ge w2)
        define L where "L = mkqs_slice x1 0 (le - ls)"
        define E where "E = mkqs_slice x1 (le - ls) (ls + int (length x) - ge - 1)"
        define G where "G = mkqs_slice x1 (int (length x) - (ge - gs)) (ge - gs)"
        have n1: "1 \<le> int (length x)" using part(1) by simp
        note pp = mkqs_partition_parts [OF refl n1 part(6) L_def E_def G_def]
        have eq: "mk_qsort_tuple x depth state seenNull w = mkqs_recurse L E G depth state seenNull w2"
          by (rule mk_qsort_tuple_part_recurse [OF h part L_def E_def G_def])
        have "set x1 = set x" using pp(8) by (rule mset_eq_setD)
        then have sub: "set L \<subseteq> set x" "set E \<subseteq> set x" "set G \<subseteq> set x"
          using pp(1) by auto
        have "\<forall>c \<in> set (fst (snd (mkqs_recurse L E G depth state seenNull w2))). set (fst c) \<subseteq> set x"
        proof (rule mkqs_recurse_calls)
          fix v
          have "depth = depth \<and> length L < length x \<or> depth = depth + 1 \<and> depth < nKeys state"
            using pp(6) by simp
          from step [OF this] sub(1)
          show "\<forall>c \<in> set (fst (snd (mk_qsort_tuple L depth state seenNull v))). set (fst c) \<subseteq> set x"
            by blast
        next
          fix v
          have "depth = depth \<and> length G < length x \<or> depth = depth + 1 \<and> depth < nKeys state"
            using pp(7) by simp
          from step [OF this] sub(3)
          show "\<forall>c \<in> set (fst (snd (mk_qsort_tuple G depth state seenNull v))). set (fst c) \<subseteq> set x"
            by blast
        next
          fix v
          show "\<forall>c \<in> set (fst (snd (mkqs_equal_call E depth state seenNull v))). set (fst c) \<subseteq> set x"
          proof (cases "depth + 1 < nKeys state")
            case True
            have c: "depth + 1 = depth \<and> length E < length x \<or>
                depth + 1 = depth + 1 \<and> depth + 1 < nKeys state"
              using True by simp
            from step [OF c] sub(2)
            have "\<forall>c \<in> set (fst (snd (mk_qsort_tuple E (depth + 1) state
                (seenNull \<or> check_datum_null (hd E) depth state) v))). set (fst c) \<subseteq> set x"
              by blast
            then show ?thesis using True by (simp add: mkqs_equal_call_def)
          next
            case False
            then show ?thesis
              using mkqs_handle_dup_calls [of E "int (length E)"
                  "seenNull \<or> check_datum_null (hd E) depth state" state v] sub(2)
              by (simp add: mkqs_equal_call_def)
          qed
        qed
        then show ?thesis using eq by simp
      qed
    qed
  qed
  then show ?thesis by simp
qed

lemma mkqs_equal_call_calls_subset:
  fixes state :: "('d, 'p, 'k, 'e) Tuplesortstate"
  assumes h: "mkqs_handler_permutes state"
  shows "\<forall>c \<in> set (fst (snd (mkqs_equal_call E depth state seenNull w))). set (fst c) \<subseteq> set E"
proof (cases "depth + 1 < nKeys state")
  case True
  then show ?thesis
    using mk_qsort_tuple_calls_subset [OF h, of E "depth + 1"] by (simp add: mkqs_equal_call_def)
next
  case False
  then show ?thesis
    using mkqs_handle_dup_calls [of E "int (length E)"
        "seenNull \<or> check_datum_null (hd E) depth state" state w]
    by (simp add: mkqs_equal_call_def)
qed

lemma mkqs_handle_dup_runs:
  fixes state :: "('d, 'p, 'k, 'e) Tuplesortstate"
  assumes hs: "mkqsHandleDupFunc state \<noteq> None" and nk: "nKeys state \<le> d"
    and run: "mkqs_handle_dup E (int (length E)) flag state w = (E', c2, Inr w')"
  shows "map mset (mkqs_runs_with state d t c2) =
     (if 1 < length (mkqs_equal_class state d t E) then [mset (mkqs_equal_class state d t E)] else [])"
proof -
  have cl: "mkqs_equal_class state d t E = E"
    by (simp add: mkqs_equal_class_def compare_range_spec_end [OF nk])
  obtain f where f: "mkqsHandleDupFunc state = Some f" using hs by auto
  show ?thesis
  proof (cases "1 < length E")
    case True
    then have "c2 = [(E, flag)]"
      using run f by (auto simp: mkqs_handle_dup_def split: prod.splits option.splits)
    moreover have "E \<noteq> []" using True by auto
    ultimately show ?thesis
      using True cl by (simp add: mkqs_runs_with_def compare_range_spec_end [OF nk])
  next
    case False
    then have "c2 = []"
      using run f by (auto simp: mkqs_handle_dup_def split: prod.splits option.splits)
    then show ?thesis using False cl by (simp add: mkqs_runs_with_def)
  qed
qed

lemma mk_qsort_tuple_dup_from:
  fixes state :: "('d, 'p, 'k, 'e) Tuplesortstate"
  assumes ok: "mkqs_comparator_ok state" and h: "mkqs_handler_permutes state"
    and g: "mkqsCompFuncType state = MKQS_COMP_FUNC_GENERIC"
    and hs: "mkqsHandleDupFunc state \<noteq> None"
  shows "depth < nKeys state \<Longrightarrow>
         mk_qsort_tuple x depth state seenNull w = (x', calls, Inr w') \<Longrightarrow>
         map mset (mkqs_runs_with state depth t calls) =
           (if 1 < length (mkqs_equal_class state depth t x)
            then [mset (mkqs_equal_class state depth t x)] else [])"
proof -
  let ?Q = "\<lambda>d (x :: ('d, 'p) SortTuple list) calls.
      map mset (mkqs_runs_with state d t calls) =
        (if 1 < length (mkqs_equal_class state d t x)
         then [mset (mkqs_equal_class state d t x)] else [])"
  let ?P = "\<lambda>(x :: ('d, 'p) SortTuple list) depth. depth < nKeys state \<longrightarrow>
      (\<forall>seenNull w x' calls w'. mk_qsort_tuple x depth state seenNull w = (x', calls, Inr w') \<longrightarrow>
         ?Q depth x calls)"
  have "?P x depth"
  proof (rule mkqs_induct [where state = state and P = ?P])
    fix x :: "('d, 'p) SortTuple list" and depth
    assume step: "\<And>x' depth'. depth' = depth \<and> length x' < length x \<or>
        depth' = depth + 1 \<and> depth' < nKeys state \<Longrightarrow> ?P x' depth'"
    show "?P x depth"
    proof (intro impI allI)
      fix seenNull w x' calls w'
      assume d: "depth < nKeys state"
        and run: "mk_qsort_tuple x depth state seenNull w = (x', calls, Inr w')"
      have po: "mkqs_preorder (\<lambda>a b. mkqs_compare_datum a b depth state)"
        using ok d by (simp add: mkqs_comparator_ok_def)
      show "?Q depth x calls"
      proof (cases rule: mk_qsort_tuple_cases
          [where x = x and depth = depth and state = state and seenNull = seenNull and w = w])
        case base
        then have len: "length x \<le> 1" using d by simp
        have "length (mkqs_equal_class state depth t x) \<le> length x"
          by (simp add: mkqs_equal_class_def)
        then have "\<not> 1 < length (mkqs_equal_class state depth t x)" using len by simp
        moreover have "calls = []" using base(2) run by simp
        ultimately show ?thesis by (simp add: mkqs_runs_with_def)
      next
        case (cancel e)
        then show ?thesis using run by simp
      next
        case (ordered w0 w1)
        have "mkqs_strict_ordered_loop x (int (length x)) depth state 0 w0 = Inr (True, w1)"
          using ordered(4) g by (simp add: mkqs_pre_ordered_check_def)
        from mkqs_strict_ordered_loop_True [OF this]
        have adj: "\<forall>j. Suc j < length x \<longrightarrow>
            mkqs_compare_datum (x ! j) (x ! Suc j) depth state < 0"
          by auto
        have "sorted_wrt (\<lambda>a b. mkqs_compare_datum a b depth state < 0) x"
        proof (rule sorted_wrt_adjacent [OF _ adj])
          fix a b c
          assume "mkqs_compare_datum a b depth state < 0" "mkqs_compare_datum b c depth state < 0"
          then show "mkqs_compare_datum a c depth state < 0"
            using mkqs_preorder_lt_le [OF po, of a b c] by simp
        qed
        from mkqs_strict_class [OF po d this, of t]
        have "\<not> 1 < length (mkqs_equal_class state depth t x)" by simp
        moreover have "calls = []" using ordered(5) run by simp
        ultimately show ?thesis by (simp add: mkqs_runs_with_def)
      next
        case (small w0 w1)
        then show ?thesis using hs by simp
      next
        case (part_cancel w0 w1 x1 e)
        then show ?thesis using run by simp
      next
        case (part w0 w1 x1 ls le gs ge w2)
        define L where "L = mkqs_slice x1 0 (le - ls)"
        define E where "E = mkqs_slice x1 (le - ls) (ls + int (length x) - ge - 1)"
        define G where "G = mkqs_slice x1 (int (length x) - (ge - gs)) (ge - gs)"
        define p where "p = x ! nat (mkqs_select_pivot x (int (length x)) depth state)"
        have n1: "1 \<le> int (length x)" using part(1) by simp
        note pp = mkqs_partition_parts [OF refl n1 part(6) L_def E_def G_def]
        have pr: "mkqs_compare_datum p p depth state = 0" using po by (simp add: mkqs_preorder_def)
        note pc = mkqs_partition_parts_cmp [OF refl n1 part(6) L_def E_def G_def p_def pr]
        have eq: "mkqs_recurse L E G depth state seenNull w2 = (x', calls, Inr w')"
          using mk_qsort_tuple_part_recurse [OF h part L_def E_def G_def, of seenNull] run by simp
        from eq obtain L' E' G' c1 c2 c3 w3 w4 where
          cL: "mk_qsort_tuple L depth state seenNull w2 = (L', c1, Inr w3)" and
          cE: "mkqs_equal_call E depth state seenNull w3 = (E', c2, Inr w4)" and
          cG: "mk_qsort_tuple G depth state seenNull w4 = (G', c3, Inr w')" and
          calls: "calls = c1 @ c2 @ c3"
          by (rule mkqs_recurse_complete)
        have s1: "\<forall>c \<in> set c1. set (fst c) \<subseteq> set L"
          using mk_qsort_tuple_calls_subset [OF h, of L depth seenNull w2] cL by simp
        have s2: "\<forall>c \<in> set c2. set (fst c) \<subseteq> set E"
          using mkqs_equal_call_calls_subset [OF h, of E depth seenNull w3] cE by simp
        have s3: "\<forall>c \<in> set c3. set (fst c) \<subseteq> set G"
          using mk_qsort_tuple_calls_subset [OF h, of G depth seenNull w4] cG by simp
        have runs: "mkqs_runs_with state depth t calls =
            mkqs_runs_with state depth t c1 @ mkqs_runs_with state depth t c2 @
            mkqs_runs_with state depth t c3"
          by (simp add: calls mkqs_runs_with_append)
        have "mset x = mset (L @ E @ G)" using pp(1) pp(8) by simp
        note cls = mkqs_equal_class_parts [OF this, of state depth t]
        have "depth = depth \<and> length L < length x \<or> depth = depth + 1 \<and> depth < nKeys state"
          using pp(6) by simp
        from step [OF this] d cL have iL: "?Q depth L c1" by blast
        have "depth = depth \<and> length G < length x \<or> depth = depth + 1 \<and> depth < nKeys state"
          using pp(7) by simp
        from step [OF this] d cG have iG: "?Q depth G c3" by blast
        have iE: "?Q (Suc depth) E c2"
        proof (cases "depth + 1 < nKeys state")
          case True
          then have c: "mk_qsort_tuple E (depth + 1) state
              (seenNull \<or> check_datum_null (hd E) depth state) w3 = (E', c2, Inr w4)"
            using cE by (simp add: mkqs_equal_call_def)
          have "depth + 1 = depth \<and> length E < length x \<or>
              depth + 1 = depth + 1 \<and> depth + 1 < nKeys state"
            using True by simp
          from step [OF this] True c have "?Q (depth + 1) E c2" by blast
          then show ?thesis by simp
        next
          case False
          then have nk: "nKeys state \<le> Suc depth" by simp
          have c: "mkqs_handle_dup E (int (length E))
              (seenNull \<or> check_datum_null (hd E) depth state) state w3 = (E', c2, Inr w4)"
            using cE False by (simp add: mkqs_equal_call_def)
          show ?thesis by (rule mkqs_handle_dup_runs [OF hs nk c])
        qed
        consider (lt) "mkqs_compare_datum t p depth state < 0"
          | (eq) "mkqs_compare_datum t p depth state = 0"
          | (gt) "mkqs_compare_datum t p depth state > 0"
          by linarith
        then show ?thesis
        proof cases
          case lt
          have nE: "\<forall>u \<in> set E. compare_range_spec t u depth state \<noteq> 0"
            using mkqs_class_side(1) [OF po d lt] pc(2) by fastforce
          have nG: "\<forall>u \<in> set G. compare_range_spec t u depth state \<noteq> 0"
            using mkqs_class_side(1) [OF po d lt] pc(3) by fastforce
          have r: "mkqs_runs_with state depth t calls = mkqs_runs_with state depth t c1"
            using runs mkqs_runs_with_none [OF s2 nE] mkqs_runs_with_none [OF s3 nG] by simp
          have m: "mset (mkqs_equal_class state depth t x) = mset (mkqs_equal_class state depth t L)"
            using cls mkqs_equal_class_none [OF nE] mkqs_equal_class_none [OF nG] by simp
          then have "length (mkqs_equal_class state depth t x) = length (mkqs_equal_class state depth t L)"
            by (rule mset_eq_length)
          then show ?thesis using iL r m by simp
        next
          case gt
          have nL: "\<forall>u \<in> set L. compare_range_spec t u depth state \<noteq> 0"
            using mkqs_class_side(2) [OF po d gt] pc(1) by fastforce
          have nE: "\<forall>u \<in> set E. compare_range_spec t u depth state \<noteq> 0"
            using mkqs_class_side(2) [OF po d gt] pc(2) by fastforce
          have r: "mkqs_runs_with state depth t calls = mkqs_runs_with state depth t c3"
            using runs mkqs_runs_with_none [OF s1 nL] mkqs_runs_with_none [OF s2 nE] by simp
          have m: "mset (mkqs_equal_class state depth t x) = mset (mkqs_equal_class state depth t G)"
            using cls mkqs_equal_class_none [OF nL] mkqs_equal_class_none [OF nE] by simp
          then have "length (mkqs_equal_class state depth t x) = length (mkqs_equal_class state depth t G)"
            by (rule mset_eq_length)
          then show ?thesis using iG r m by simp
        next
          case eq
          have nL: "\<forall>u \<in> set L. compare_range_spec t u depth state \<noteq> 0"
            using mkqs_class_side(3) [OF po d eq] pc(1) by fastforce
          have nG: "\<forall>u \<in> set G. compare_range_spec t u depth state \<noteq> 0"
            using mkqs_class_side(3) [OF po d eq] pc(3) by fastforce
          have cE': "\<forall>u \<in> set E. (compare_range_spec t u depth state = 0) =
              (compare_range_spec t u (Suc depth) state = 0)"
            using mkqs_class_side(4) [OF po d eq] pc(2) by fastforce
          have r: "mkqs_runs_with state depth t calls = mkqs_runs_with state (Suc depth) t c2"
            using runs mkqs_runs_with_none [OF s1 nL] mkqs_runs_with_none [OF s3 nG]
              mkqs_runs_with_cong [OF s2 cE'] by simp
          have m: "mset (mkqs_equal_class state depth t x) =
              mset (mkqs_equal_class state (Suc depth) t E)"
            using cls mkqs_equal_class_none [OF nL] mkqs_equal_class_none [OF nG]
              mkqs_equal_class_cong [OF cE'] by simp
          then have "length (mkqs_equal_class state depth t x) =
              length (mkqs_equal_class state (Suc depth) t E)"
            by (rule mset_eq_length)
          then show ?thesis using iE r m by simp
        qed
      qed
    qed
  qed
  then show "depth < nKeys state \<Longrightarrow>
         mk_qsort_tuple x depth state seenNull w = (x', calls, Inr w') \<Longrightarrow>
         map mset (mkqs_runs_with state depth t calls) =
           (if 1 < length (mkqs_equal_class state depth t x)
            then [mset (mkqs_equal_class state depth t x)] else [])"
    by blast
qed


text \<open>
  C3, as the specification states it: with a duplicate handler set, a completed call
  invokes the handler exactly once on the run of every two tuples that compare equal at
  every key, whatever path handles them, the pre-order short-circuit included. It fails
  for a specialised kind: three tuples (1, 1) are in order for the whole-tuple comparator,
  the call returns from the pre-order check and the handler is never called.
\<close>

theorem handle_dup_once_counterexample:
  "mk_qsort_tuple [ex_tuple [Some 1, Some 1], ex_tuple [Some 1, Some 1], ex_tuple [Some 1, Some 1]] 0
     (ex_state MKQS_COMP_FUNC_INT32 (Some ex_keep)) False None =
     ([ex_tuple [Some 1, Some 1], ex_tuple [Some 1, Some 1], ex_tuple [Some 1, Some 1]], [], Inr None) \<and>
   mkqsHandleDupFunc (ex_state MKQS_COMP_FUNC_INT32 (Some ex_keep)) = Some ex_keep \<and>
   compare_range_spec (ex_tuple [Some 1, Some 1]) (ex_tuple [Some 1, Some 1]) 0
     (ex_state MKQS_COMP_FUNC_INT32 (Some ex_keep)) = 0"
proof (intro conjI)
  show "mk_qsort_tuple [ex_tuple [Some 1, Some 1], ex_tuple [Some 1, Some 1], ex_tuple [Some 1, Some 1]] 0
     (ex_state MKQS_COMP_FUNC_INT32 (Some ex_keep)) False None =
     ([ex_tuple [Some 1, Some 1], ex_tuple [Some 1, Some 1], ex_tuple [Some 1, Some 1]], [], Inr None)"
    by code_simp
  show "mkqsHandleDupFunc (ex_state MKQS_COMP_FUNC_INT32 (Some ex_keep)) = Some ex_keep"
    by (simp add: ex_state_def)
  show "compare_range_spec (ex_tuple [Some 1, Some 1]) (ex_tuple [Some 1, Some 1]) 0
     (ex_state MKQS_COMP_FUNC_INT32 (Some ex_keep)) = 0"
    by code_simp
qed

lemma mkqs_recurse_calls_split:
  fixes state :: "('d, 'p, 'k, 'e) Tuplesortstate"
  obtains c1 c2 c3 where
    "fst (snd (mkqs_recurse L E G depth state seenNull w)) = c1 @ c2 @ c3"
    "c1 = [] \<or> (\<exists>v. c1 = fst (snd (mk_qsort_tuple L depth state seenNull v)))"
    "c2 = [] \<or> (\<exists>v. c2 = fst (snd (mkqs_equal_call E depth state seenNull v)))"
    "c3 = [] \<or> (\<exists>v. c3 = fst (snd (mk_qsort_tuple G depth state seenNull v)))"
proof -
  obtain L' c1 r1 where cL: "mk_qsort_tuple L depth state seenNull w = (L', c1, r1)"
    by (cases "mk_qsort_tuple L depth state seenNull w") auto
  have p1: "c1 = fst (snd (mk_qsort_tuple L depth state seenNull w))" using cL by simp
  show ?thesis
  proof (cases r1)
    case (Inl e)
    have "fst (snd (mkqs_recurse L E G depth state seenNull w)) = c1 @ [] @ []"
      using cL Inl by (simp add: mkqs_recurse_def)
    then show ?thesis using p1 by (intro that [of c1 "[]" "[]"]) auto
  next
    case (Inr w3)
    obtain E' c2 r2 where cE: "mkqs_equal_call E depth state seenNull w3 = (E', c2, r2)"
      by (cases "mkqs_equal_call E depth state seenNull w3") auto
    have p2: "c2 = fst (snd (mkqs_equal_call E depth state seenNull w3))" using cE by simp
    show ?thesis
    proof (cases r2)
      case (Inl e)
      have "fst (snd (mkqs_recurse L E G depth state seenNull w)) = c1 @ c2 @ []"
        using cL Inr cE Inl by (simp add: mkqs_recurse_def)
      then show ?thesis using p1 p2 by (intro that [of c1 c2 "[]"]) auto
    next
      case w4: (Inr w4)
      obtain G' c3 r3 where cG: "mk_qsort_tuple G depth state seenNull w4 = (G', c3, r3)"
        by (cases "mk_qsort_tuple G depth state seenNull w4") auto
      have p3: "c3 = fst (snd (mk_qsort_tuple G depth state seenNull w4))" using cG by simp
      have "fst (snd (mkqs_recurse L E G depth state seenNull w)) = c1 @ c2 @ c3"
        using cL Inr cE w4 cG by (simp add: mkqs_recurse_def)
      then show ?thesis using p1 p2 p3 by (intro that [of c1 c2 c3]) auto
    qed
  qed
qed

lemma mkqs_handle_dup_runs_any:
  fixes state :: "('d, 'p, 'k, 'e) Tuplesortstate"
  assumes nk: "nKeys state \<le> d"
  shows "mkqs_runs_with state d t (fst (snd (mkqs_handle_dup E (int (length E)) flag state w))) = [] \<or>
     1 < length (mkqs_equal_class state d t E) \<and>
     map mset (mkqs_runs_with state d t (fst (snd (mkqs_handle_dup E (int (length E)) flag state w)))) =
       [mset (mkqs_equal_class state d t E)]"
proof -
  have cl: "mkqs_equal_class state d t E = E"
    by (simp add: mkqs_equal_class_def compare_range_spec_end [OF nk])
  let ?c = "fst (snd (mkqs_handle_dup E (int (length E)) flag state w))"
  have "?c = [] \<or> (1 < length E \<and> ?c = [(E, flag)])"
    by (auto simp: mkqs_handle_dup_def split: option.splits prod.splits)
  then show ?thesis
  proof
    assume "?c = []"
    then show ?thesis by (simp add: mkqs_runs_with_def)
  next
    assume a: "1 < length E \<and> ?c = [(E, flag)]"
    then have "E \<noteq> []" by auto
    then have "mkqs_runs_with state d t [(E, flag)] = [E]"
      by (simp add: mkqs_runs_with_def compare_range_spec_end [OF nk])
    then show ?thesis using a cl by simp
  qed
qed


text \<open>
  For every kind and every outcome: the calls whose run holds a tuple equal to \<open>t\<close> are
  none, or one call on the whole class of \<open>t\<close>, which then has two tuples or more.
\<close>

lemma mk_qsort_tuple_dup_at_most_from:
  fixes state :: "('d, 'p, 'k, 'e) Tuplesortstate"
  assumes ok: "mkqs_comparator_ok state" and h: "mkqs_handler_permutes state"
  shows "depth \<le> nKeys state \<Longrightarrow>
         mkqs_runs_with state depth t (fst (snd (mk_qsort_tuple x depth state seenNull w))) = [] \<or>
         1 < length (mkqs_equal_class state depth t x) \<and>
         map mset (mkqs_runs_with state depth t (fst (snd (mk_qsort_tuple x depth state seenNull w)))) =
           [mset (mkqs_equal_class state depth t x)]"
proof -
  let ?Q = "\<lambda>d (x :: ('d, 'p) SortTuple list) calls.
      mkqs_runs_with state d t calls = [] \<or>
      1 < length (mkqs_equal_class state d t x) \<and>
      map mset (mkqs_runs_with state d t calls) = [mset (mkqs_equal_class state d t x)]"
  let ?P = "\<lambda>(x :: ('d, 'p) SortTuple list) depth. depth \<le> nKeys state \<longrightarrow>
      (\<forall>seenNull w. ?Q depth x (fst (snd (mk_qsort_tuple x depth state seenNull w))))"
  have nil: "?Q d y []" for d y by (simp add: mkqs_runs_with_def)
  have "?P x depth"
  proof (rule mkqs_induct [where state = state and P = ?P])
    fix x :: "('d, 'p) SortTuple list" and depth
    assume step: "\<And>x' depth'. depth' = depth \<and> length x' < length x \<or>
        depth' = depth + 1 \<and> depth' < nKeys state \<Longrightarrow> ?P x' depth'"
    show "?P x depth"
    proof (intro impI allI)
      fix seenNull w
      assume dk: "depth \<le> nKeys state"
      show "?Q depth x (fst (snd (mk_qsort_tuple x depth state seenNull w)))"
      proof (cases rule: mk_qsort_tuple_cases
          [where x = x and depth = depth and state = state and seenNull = seenNull and w = w])
        case base
        then show ?thesis by (simp add: mkqs_runs_with_def)
      next
        case (cancel e)
        then show ?thesis by (simp add: mkqs_runs_with_def)
      next
        case (ordered w0 w1)
        then show ?thesis by (simp add: mkqs_runs_with_def)
      next
        case (small w0 w1)
        then show ?thesis by (simp add: mkqs_runs_with_def)
      next
        case (part_cancel w0 w1 x1 e)
        then show ?thesis by (simp add: mkqs_runs_with_def)
      next
        case (part w0 w1 x1 ls le gs ge w2)
        have d: "depth < nKeys state" using dk part(2) by simp
        have po: "mkqs_preorder (\<lambda>a b. mkqs_compare_datum a b depth state)"
          using ok d by (simp add: mkqs_comparator_ok_def)
        define L where "L = mkqs_slice x1 0 (le - ls)"
        define E where "E = mkqs_slice x1 (le - ls) (ls + int (length x) - ge - 1)"
        define G where "G = mkqs_slice x1 (int (length x) - (ge - gs)) (ge - gs)"
        define p where "p = x ! nat (mkqs_select_pivot x (int (length x)) depth state)"
        have n1: "1 \<le> int (length x)" using part(1) by simp
        note pp = mkqs_partition_parts [OF refl n1 part(6) L_def E_def G_def]
        have pr: "mkqs_compare_datum p p depth state = 0" using po by (simp add: mkqs_preorder_def)
        note pc = mkqs_partition_parts_cmp [OF refl n1 part(6) L_def E_def G_def p_def pr]
        have eq: "mk_qsort_tuple x depth state seenNull w = mkqs_recurse L E G depth state seenNull w2"
          by (rule mk_qsort_tuple_part_recurse [OF h part L_def E_def G_def])
        obtain c1 c2 c3 where
          calls: "fst (snd (mkqs_recurse L E G depth state seenNull w2)) = c1 @ c2 @ c3" and
          o1: "c1 = [] \<or> (\<exists>v. c1 = fst (snd (mk_qsort_tuple L depth state seenNull v)))" and
          o2: "c2 = [] \<or> (\<exists>v. c2 = fst (snd (mkqs_equal_call E depth state seenNull v)))" and
          o3: "c3 = [] \<or> (\<exists>v. c3 = fst (snd (mk_qsort_tuple G depth state seenNull v)))"
          by (rule mkqs_recurse_calls_split)
        let ?calls = "fst (snd (mk_qsort_tuple x depth state seenNull w))"
        have cs: "?calls = c1 @ c2 @ c3" using eq calls by simp
        have s1: "\<forall>c \<in> set c1. set (fst c) \<subseteq> set L"
          using o1 mk_qsort_tuple_calls_subset [OF h, of L depth seenNull] by auto
        have s2: "\<forall>c \<in> set c2. set (fst c) \<subseteq> set E"
          using o2 mkqs_equal_call_calls_subset [OF h, of E depth seenNull] by auto
        have s3: "\<forall>c \<in> set c3. set (fst c) \<subseteq> set G"
          using o3 mk_qsort_tuple_calls_subset [OF h, of G depth seenNull] by auto
        have runs: "mkqs_runs_with state depth t ?calls =
            mkqs_runs_with state depth t c1 @ mkqs_runs_with state depth t c2 @
            mkqs_runs_with state depth t c3"
          by (simp add: cs mkqs_runs_with_append)
        have "mset x = mset (L @ E @ G)" using pp(1) pp(8) by simp
        note cls = mkqs_equal_class_parts [OF this, of state depth t]
        have iL: "?Q depth L c1"
        proof -
          have "depth = depth \<and> length L < length x \<or> depth = depth + 1 \<and> depth < nKeys state"
            using pp(6) by simp
          from step [OF this] dk
          have "\<forall>v. ?Q depth L (fst (snd (mk_qsort_tuple L depth state seenNull v)))" by blast
          then show ?thesis using o1 nil [of depth L] by blast
        qed
        have iG: "?Q depth G c3"
        proof -
          have "depth = depth \<and> length G < length x \<or> depth = depth + 1 \<and> depth < nKeys state"
            using pp(7) by simp
          from step [OF this] dk
          have "\<forall>v. ?Q depth G (fst (snd (mk_qsort_tuple G depth state seenNull v)))" by blast
          then show ?thesis using o3 nil [of depth G] by blast
        qed
        have iE: "?Q (Suc depth) E c2"
        proof -
          have "\<forall>v. ?Q (Suc depth) E (fst (snd (mkqs_equal_call E depth state seenNull v)))"
          proof (cases "depth + 1 < nKeys state")
            case True
            have "depth + 1 = depth \<and> length E < length x \<or>
                depth + 1 = depth + 1 \<and> depth + 1 < nKeys state"
              using True by simp
            from step [OF this] True
            have "\<forall>sn v. ?Q (depth + 1) E (fst (snd (mk_qsort_tuple E (depth + 1) state sn v)))"
              by simp
            then show ?thesis using True by (simp add: mkqs_equal_call_def)
          next
            case False
            then have nk: "nKeys state \<le> Suc depth" by simp
            show ?thesis
              using False mkqs_handle_dup_runs_any [OF nk, of t E] by (simp add: mkqs_equal_call_def)
          qed
          then show ?thesis using o2 nil [of "Suc depth" E] by blast
        qed
        consider (lt) "mkqs_compare_datum t p depth state < 0"
          | (eq) "mkqs_compare_datum t p depth state = 0"
          | (gt) "mkqs_compare_datum t p depth state > 0"
          by linarith
        then show ?thesis
        proof cases
          case lt
          have nE: "\<forall>u \<in> set E. compare_range_spec t u depth state \<noteq> 0"
            using mkqs_class_side(1) [OF po d lt] pc(2) by fastforce
          have nG: "\<forall>u \<in> set G. compare_range_spec t u depth state \<noteq> 0"
            using mkqs_class_side(1) [OF po d lt] pc(3) by fastforce
          have r: "mkqs_runs_with state depth t ?calls = mkqs_runs_with state depth t c1"
            using runs mkqs_runs_with_none [OF s2 nE] mkqs_runs_with_none [OF s3 nG] by simp
          have m: "mset (mkqs_equal_class state depth t x) = mset (mkqs_equal_class state depth t L)"
            using cls mkqs_equal_class_none [OF nE] mkqs_equal_class_none [OF nG] by simp
          then have "length (mkqs_equal_class state depth t x) = length (mkqs_equal_class state depth t L)"
            by (rule mset_eq_length)
          then show ?thesis using iL r m by simp
        next
          case gt
          have nL: "\<forall>u \<in> set L. compare_range_spec t u depth state \<noteq> 0"
            using mkqs_class_side(2) [OF po d gt] pc(1) by fastforce
          have nE: "\<forall>u \<in> set E. compare_range_spec t u depth state \<noteq> 0"
            using mkqs_class_side(2) [OF po d gt] pc(2) by fastforce
          have r: "mkqs_runs_with state depth t ?calls = mkqs_runs_with state depth t c3"
            using runs mkqs_runs_with_none [OF s1 nL] mkqs_runs_with_none [OF s2 nE] by simp
          have m: "mset (mkqs_equal_class state depth t x) = mset (mkqs_equal_class state depth t G)"
            using cls mkqs_equal_class_none [OF nL] mkqs_equal_class_none [OF nE] by simp
          then have "length (mkqs_equal_class state depth t x) = length (mkqs_equal_class state depth t G)"
            by (rule mset_eq_length)
          then show ?thesis using iG r m by simp
        next
          case eq
          have nL: "\<forall>u \<in> set L. compare_range_spec t u depth state \<noteq> 0"
            using mkqs_class_side(3) [OF po d eq] pc(1) by fastforce
          have nG: "\<forall>u \<in> set G. compare_range_spec t u depth state \<noteq> 0"
            using mkqs_class_side(3) [OF po d eq] pc(3) by fastforce
          have cE': "\<forall>u \<in> set E. (compare_range_spec t u depth state = 0) =
              (compare_range_spec t u (Suc depth) state = 0)"
            using mkqs_class_side(4) [OF po d eq] pc(2) by fastforce
          have r: "mkqs_runs_with state depth t ?calls = mkqs_runs_with state (Suc depth) t c2"
            using runs mkqs_runs_with_none [OF s1 nL] mkqs_runs_with_none [OF s3 nG]
              mkqs_runs_with_cong [OF s2 cE'] by simp
          have m: "mset (mkqs_equal_class state depth t x) =
              mset (mkqs_equal_class state (Suc depth) t E)"
            using cls mkqs_equal_class_none [OF nL] mkqs_equal_class_none [OF nG]
              mkqs_equal_class_cong [OF cE'] by simp
          then have "length (mkqs_equal_class state depth t x) =
              length (mkqs_equal_class state (Suc depth) t E)"
            by (rule mset_eq_length)
          then show ?thesis using iE r m by simp
        qed
      qed
    qed
  qed
  then show "depth \<le> nKeys state \<Longrightarrow>
         mkqs_runs_with state depth t (fst (snd (mk_qsort_tuple x depth state seenNull w))) = [] \<or>
         1 < length (mkqs_equal_class state depth t x) \<and>
         map mset (mkqs_runs_with state depth t (fst (snd (mk_qsort_tuple x depth state seenNull w)))) =
           [mset (mkqs_equal_class state depth t x)]"
    by blast
qed

text \<open>
  A specialised kind at depth 0: an array in order for the whole-tuple comparator is left
  at the pre-order check, before any handler call.
\<close>

lemma mk_qsort_tuple_ordered_no_calls:
  fixes state :: "('d, 'p, 'k, 'e) Tuplesortstate"
  assumes g: "mkqsCompFuncType state \<noteq> MKQS_COMP_FUNC_GENERIC"
    and s: "\<forall>j. Suc j < length x \<longrightarrow> mkqs_compare_tuple (x ! j) (x ! Suc j) state \<le> 0"
  shows "fst (snd (mk_qsort_tuple x 0 state seenNull w)) = []"
proof (cases rule: mk_qsort_tuple_cases
    [where x = x and depth = 0 and state = state and seenNull = seenNull and w = w])
  case base
  then show ?thesis by simp
next
  case (cancel e)
  then show ?thesis by simp
next
  case (ordered w0 w1)
  then show ?thesis by simp
next
  case (small w0 w1)
  then show ?thesis by simp
next
  case (part_cancel w0 w1 x1 e)
  then show ?thesis by simp
next
  case (part w0 w1 x1 ls le gs ge w2)
  have loop: "mkqs_pre_ordered_loop x (int (length x)) state 0 w0 = Inr (False, w1)"
    using part(4) g by (simp add: mkqs_pre_ordered_check_def)
  have "\<forall>j. 0 \<le> int j \<and> int j < int (length x) - 1 \<longrightarrow>
      mkqs_compare_tuple (x ! j) (x ! Suc j) state \<le> 0"
    using s by auto
  from mkqs_pre_ordered_loop_sorted [OF this, of w0 w1] loop show ?thesis by simp
qed

text \<open>
  C3, amended. Let \<open>mk_qsort_tuple x 0 state False\<close> be run, the per-depth comparator being a
  total preorder at every key and the handler reordering only. For every tuple \<open>t\<close>,
  consider the handler calls whose run holds a tuple equal to \<open>t\<close> at every key.

  \<^item> For every kind and every outcome there is at most one such call; when there is one, the
    class of \<open>t\<close> in \<open>x\<close> has two tuples or more and the run holds exactly the tuples of the
    class.
  \<^item> For the generic kind, with a handler set and at least one key, a completed call makes
    exactly one such call for every class of two tuples or more, and none otherwise.
  \<^item> For a specialised kind, an array in order for the whole-tuple comparator is left at the
    pre-order check without any handler call.
\<close>

theorem handle_dup_once:
  fixes state :: "('d, 'p, 'k, 'e) Tuplesortstate"
  assumes "mkqs_comparator_ok state" and "mkqs_handler_permutes state"
    and "mk_qsort_tuple x 0 state False w = (x', calls, r)"
  shows "(mkqs_runs_with state 0 t calls = [] \<or>
          1 < length (mkqs_equal_class state 0 t x) \<and>
          map mset (mkqs_runs_with state 0 t calls) = [mset (mkqs_equal_class state 0 t x)]) \<and>
         (mkqsCompFuncType state = MKQS_COMP_FUNC_GENERIC \<and> mkqsHandleDupFunc state \<noteq> None \<and>
          0 < nKeys state \<and> (\<exists>w'. r = Inr w') \<longrightarrow>
            map mset (mkqs_runs_with state 0 t calls) =
              (if 1 < length (mkqs_equal_class state 0 t x)
               then [mset (mkqs_equal_class state 0 t x)] else [])) \<and>
         (mkqsCompFuncType state \<noteq> MKQS_COMP_FUNC_GENERIC \<and>
          (\<forall>j. Suc j < length x \<longrightarrow> mkqs_compare_tuple (x ! j) (x ! Suc j) state \<le> 0) \<longrightarrow>
            calls = [])"
proof (intro conjI impI)
  have c: "calls = fst (snd (mk_qsort_tuple x 0 state False w))" using assms(3) by simp
  show "mkqs_runs_with state 0 t calls = [] \<or>
        1 < length (mkqs_equal_class state 0 t x) \<and>
        map mset (mkqs_runs_with state 0 t calls) = [mset (mkqs_equal_class state 0 t x)]"
    unfolding c by (rule mk_qsort_tuple_dup_at_most_from [OF assms(1,2)]) simp
next
  assume a: "mkqsCompFuncType state = MKQS_COMP_FUNC_GENERIC \<and> mkqsHandleDupFunc state \<noteq> None \<and>
          0 < nKeys state \<and> (\<exists>w'. r = Inr w')"
  then obtain w' where r: "mk_qsort_tuple x 0 state False w = (x', calls, Inr w')"
    using assms(3) by auto
  from a have g: "mkqsCompFuncType state = MKQS_COMP_FUNC_GENERIC"
    and hs: "mkqsHandleDupFunc state \<noteq> None" and k: "0 < nKeys state" by simp_all
  show "map mset (mkqs_runs_with state 0 t calls) =
      (if 1 < length (mkqs_equal_class state 0 t x)
       then [mset (mkqs_equal_class state 0 t x)] else [])"
    by (rule mk_qsort_tuple_dup_from [OF assms(1,2) g hs k r])
next
  assume a: "mkqsCompFuncType state \<noteq> MKQS_COMP_FUNC_GENERIC \<and>
          (\<forall>j. Suc j < length x \<longrightarrow> mkqs_compare_tuple (x ! j) (x ! Suc j) state \<le> 0)"
  then have g: "mkqsCompFuncType state \<noteq> MKQS_COMP_FUNC_GENERIC"
    and s: "\<forall>j. Suc j < length x \<longrightarrow> mkqs_compare_tuple (x ! j) (x ! Suc j) state \<le> 0"
    by simp_all
  from mk_qsort_tuple_ordered_no_calls [OF g s, of False w] show "calls = []"
    using assms(3) by simp
qed

text \<open>
  Three runs with a handler that changes nothing. Generic kind: the class of (1, 1) gets
  its one call. Kind INT32, array not in order: the class of (1, 1) gets one call too.
  Kind INT32, array in order: no call.
\<close>

theorem handle_dup_once_witness:
  "mkqs_comparator_ok (ex_state MKQS_COMP_FUNC_GENERIC (Some ex_keep)) \<and>
   mkqs_handler_permutes (ex_state MKQS_COMP_FUNC_GENERIC (Some ex_keep)) \<and>
   mkqsCompFuncType (ex_state MKQS_COMP_FUNC_GENERIC (Some ex_keep)) = MKQS_COMP_FUNC_GENERIC \<and>
   mkqsHandleDupFunc (ex_state MKQS_COMP_FUNC_GENERIC (Some ex_keep)) \<noteq> None \<and>
   0 < nKeys (ex_state MKQS_COMP_FUNC_GENERIC (Some ex_keep)) \<and>
   mk_qsort_tuple [ex_tuple [Some 1, Some 1], ex_tuple [Some 0, Some 2], ex_tuple [Some 1, Some 1]] 0
     (ex_state MKQS_COMP_FUNC_GENERIC (Some ex_keep)) False None =
     ([ex_tuple [Some 0, Some 2], ex_tuple [Some 1, Some 1], ex_tuple [Some 1, Some 1]],
      [([ex_tuple [Some 1, Some 1], ex_tuple [Some 1, Some 1]], False)], Inr None) \<and>
   map mset (mkqs_runs_with (ex_state MKQS_COMP_FUNC_GENERIC (Some ex_keep)) 0 (ex_tuple [Some 1, Some 1])
     [([ex_tuple [Some 1, Some 1], ex_tuple [Some 1, Some 1]], False)]) =
     [mset [ex_tuple [Some 1, Some 1], ex_tuple [Some 1, Some 1]]] \<and>
   mkqs_comparator_ok (ex_state MKQS_COMP_FUNC_INT32 (Some ex_keep)) \<and>
   mkqs_handler_permutes (ex_state MKQS_COMP_FUNC_INT32 (Some ex_keep)) \<and>
   mkqsCompFuncType (ex_state MKQS_COMP_FUNC_INT32 (Some ex_keep)) \<noteq> MKQS_COMP_FUNC_GENERIC \<and>
   mk_qsort_tuple
     [ex_tuple [Some 2, Some 0], ex_tuple [Some 1, Some 1], ex_tuple [Some 1, Some 1], ex_tuple [Some 0, Some 5]] 0
     (ex_state MKQS_COMP_FUNC_INT32 (Some ex_keep)) False None =
     ([ex_tuple [Some 0, Some 5], ex_tuple [Some 1, Some 1], ex_tuple [Some 1, Some 1], ex_tuple [Some 2, Some 0]],
      [([ex_tuple [Some 1, Some 1], ex_tuple [Some 1, Some 1]], False)], Inr None) \<and>
   1 < length (mkqs_equal_class (ex_state MKQS_COMP_FUNC_INT32 (Some ex_keep)) 0 (ex_tuple [Some 1, Some 1])
     [ex_tuple [Some 2, Some 0], ex_tuple [Some 1, Some 1], ex_tuple [Some 1, Some 1], ex_tuple [Some 0, Some 5]]) \<and>
   mkqs_compare_tuple (ex_tuple [Some 1, Some 1]) (ex_tuple [Some 1, Some 1])
     (ex_state MKQS_COMP_FUNC_INT32 (Some ex_keep)) \<le> 0 \<and>
   mk_qsort_tuple [ex_tuple [Some 1, Some 1], ex_tuple [Some 1, Some 1], ex_tuple [Some 1, Some 1]] 0
     (ex_state MKQS_COMP_FUNC_INT32 (Some ex_keep)) False None =
     ([ex_tuple [Some 1, Some 1], ex_tuple [Some 1, Some 1], ex_tuple [Some 1, Some 1]], [], Inr None)"
proof -
  let ?g = "ex_state MKQS_COMP_FUNC_GENERIC (Some ex_keep)"
  let ?s = "ex_state MKQS_COMP_FUNC_INT32 (Some ex_keep)"
  let ?t = "ex_tuple [Some 1, Some 1]"
  let ?x = "[ex_tuple [Some 1, Some 1], ex_tuple [Some 0, Some 2], ex_tuple [Some 1, Some 1]]"
  let ?y = "[ex_tuple [Some 2, Some 0], ex_tuple [Some 1, Some 1], ex_tuple [Some 1, Some 1],
             ex_tuple [Some 0, Some 5]]"
  let ?z = "[ex_tuple [Some 1, Some 1], ex_tuple [Some 1, Some 1], ex_tuple [Some 1, Some 1]]"
  let ?calls = "[([?t, ?t], False)]"
  have k: "mkqsCompFuncType ?g = MKQS_COMP_FUNC_GENERIC" by (simp add: ex_state_def)
  have hs: "mkqsHandleDupFunc ?g \<noteq> None" by (simp add: ex_state_def)
  have nk: "0 < nKeys ?g" by (simp add: ex_state_def)
  have ks: "mkqsCompFuncType ?s \<noteq> MKQS_COMP_FUNC_GENERIC" by (simp add: ex_state_def)
  have run1: "mk_qsort_tuple ?x 0 ?g False None =
      ([ex_tuple [Some 0, Some 2], ?t, ?t], ?calls, Inr None)"
    by code_simp
  have cl1: "mkqs_equal_class ?g 0 ?t ?x = [?t, ?t]"
    by code_simp
  have run2: "mk_qsort_tuple ?y 0 ?s False None =
      ([ex_tuple [Some 0, Some 5], ?t, ?t, ex_tuple [Some 2, Some 0]], ?calls, Inr None)"
    by code_simp
  have ne2: "mkqs_runs_with ?s 0 ?t ?calls \<noteq> []"
    by code_simp
  have run3: "mk_qsort_tuple ?z 0 ?s False None = (?z, [], Inr None)"
    by code_simp
  have le3: "mkqs_compare_tuple ?t ?t ?s \<le> 0"
    by code_simp
  note t1 = handle_dup_once [OF ex_comparator_ok ex_keep_permutes run1, of ?t]
  from t1 k hs nk have "map mset (mkqs_runs_with ?g 0 ?t ?calls) =
      (if 1 < length (mkqs_equal_class ?g 0 ?t ?x) then [mset (mkqs_equal_class ?g 0 ?t ?x)] else [])"
    by blast
  then have a: "map mset (mkqs_runs_with ?g 0 ?t ?calls) = [mset [?t, ?t]]"
    by (simp only: cl1) simp
  note t2 = handle_dup_once [OF ex_comparator_ok ex_keep_permutes run2, of ?t]
  from t2 ne2 have b: "1 < length (mkqs_equal_class ?s 0 ?t ?y)" by blast
  have s3: "\<forall>j. Suc j < length ?z \<longrightarrow> mkqs_compare_tuple (?z ! j) (?z ! Suc j) ?s \<le> 0"
    using le3 by (auto simp: less_Suc_eq)
  note t3 = handle_dup_once [OF ex_comparator_ok ex_keep_permutes run3, of ?t]
  from t3 ks s3 have c: "([] :: ((int, int option list) SortTuple list \<times> bool) list) = []"
    by blast
  show ?thesis
    using ex_comparator_ok ex_keep_permutes k hs nk run1 a ks run2 b le3 run3 c by blast
qed

end
